theory Spec2Isabelle
  imports Main "HOL-Library.Multiset"
begin

section \<open>Field evaluation (source/blender/functions/intern/field.cc)\<close>

subsection \<open>Data model\<close>

text \<open>
  A \<open>FieldSource\<close> is identified by its address (\<open>const FieldSource *\<close>), a
  procedure variable by its position in the procedure's variable table
  (\<open>MFVariable *\<close>). Element types (\<open>CPPType\<close>) are opaque tags and element
  values are integers.
\<close>

type_synonym source_ptr = nat
type_synonym variable = nat
type_synonym cpp_type = nat

text \<open>\<open>GField\<close>: a shared reference to a source and an output index.\<close>

datatype gfield = GField (source_ptr: source_ptr) (source_output_index: nat)

text \<open>
  The function descriptor of an operation: an identity and the types of its outputs
  (its output arity is their number).
\<close>

datatype multi_function = MultiFunction (fn_id: nat) (fn_outputs: "cpp_type list")

text \<open>\<open>FieldInput\<close> (element type, debug name) and \<open>FieldOperation\<close>
  (function, ordered input fields).\<close>

datatype field_source =
    FieldInput cpp_type string
  | FieldOperation multi_function "gfield list"

text \<open>
  The store of field sources. A \<open>GField\<close> always holds a live shared pointer, so
  dereferencing its source is total.
\<close>

type_synonym field_store = "source_ptr \<Rightarrow> field_source"

definition is_input :: "field_store \<Rightarrow> gfield \<Rightarrow> bool" where
  "is_input g field = (case g (source_ptr field) of FieldInput _ _ \<Rightarrow> True | FieldOperation _ _ \<Rightarrow> False)"

definition cpp_type_of :: "field_store \<Rightarrow> gfield \<Rightarrow> cpp_type" where
  "cpp_type_of g field =
     (case g (source_ptr field) of
        FieldInput ty _ \<Rightarrow> ty
      | FieldOperation fn _ \<Rightarrow> fn_outputs fn ! source_output_index field)"

text \<open>
  \<open>BLI_assert\<close> is a macro outside the sources of field.cc. In a build with assertions
  it aborts the call when its condition is false; in a build without them it does
  nothing and the code goes on. Whether assertions are active is the parameter
  \<open>assertions\<close> of the functions of field.cc that assert, and \<open>AssertionFailed\<close> is the
  abort. A violated container precondition (a lookup of a missing key, an index out of
  range, a cast to the wrong variant) is checked by the container and undefined without
  its check; the model stops there with \<open>PreconditionViolated\<close> in either build.
\<close>

datatype error = AssertionFailed | PreconditionViolated

subsection \<open>Procedure and procedure builder\<close>

datatype instruction =
    InputParameter variable
  | Call multi_function "variable list" "variable list"
  | Destruct variable
  | Return
  | OutputParameter variable

record procedure =
  variables :: "(cpp_type \<times> string) list"
  instructions :: "instruction list"

definition empty_procedure :: procedure where
  "empty_procedure = \<lparr>variables = [], instructions = []\<rparr>"

text \<open>
  Modelled from the spec: \<open>MFProcedureBuilder\<close> is not among the sources of field.cc.
  A procedure is an ordered instruction list over variables (parameter declaration,
  call, destruct, output-parameter declaration, return); every builder operation
  appends one instruction, and a new variable is a new slot of the variable table.
\<close>

definition add_input_parameter :: "cpp_type \<Rightarrow> string \<Rightarrow> procedure \<Rightarrow> variable \<times> procedure" where
  "add_input_parameter ty name p =
     (let v = length (variables p)
      in (v, \<lparr>variables = variables p @ [(ty, name)],
              instructions = instructions p @ [InputParameter v]\<rparr>))"

definition add_call :: "multi_function \<Rightarrow> variable list \<Rightarrow> procedure \<Rightarrow> variable list \<times> procedure" where
  "add_call fn ins p =
     (let n = length (variables p);
          outs = [n ..< n + length (fn_outputs fn)]
      in (outs, \<lparr>variables = variables p @ map (\<lambda>ty. (ty, [])) (fn_outputs fn),
                 instructions = instructions p @ [Call fn ins outs]\<rparr>))"

definition add_destruct :: "variable \<Rightarrow> procedure \<Rightarrow> procedure" where
  "add_destruct v p = p\<lparr>instructions := instructions p @ [Destruct v]\<rparr>"

definition add_return :: "procedure \<Rightarrow> procedure" where
  "add_return p = p\<lparr>instructions := instructions p @ [Return]\<rparr>"

definition add_output_parameter :: "variable \<Rightarrow> procedure \<Rightarrow> procedure" where
  "add_output_parameter v p = p\<lparr>instructions := instructions p @ [OutputParameter v]\<rparr>"

subsection \<open>The unique-variable map\<close>

text \<open>
  \<open>VariableMap = Map<const FieldSource *, Vector<MFVariable *>>\<close>. The generic map is a
  collaborator outside the sources; it is kept as an association list in insertion order,
  and \<open>values()\<close> enumerates it in that order (the source relies on no order).
\<close>

type_synonym variable_map = "(source_ptr \<times> variable list) list"

definition contains :: "variable_map \<Rightarrow> source_ptr \<Rightarrow> bool" where
  "contains uv p = (map_of uv p \<noteq> None)"

text \<open>\<open>Map::add\<close>: inserts only when the key is absent.\<close>

definition map_add_new :: "variable_map \<Rightarrow> source_ptr \<Rightarrow> variable list \<Rightarrow> variable_map" where
  "map_add_new uv p vs = (if contains uv p then uv else uv @ [(p, vs)])"

text \<open>\<open>lookup_or_add(key, {})\<close> followed by appending to the vector found.\<close>

definition lookup_or_add_append :: "variable_map \<Rightarrow> source_ptr \<Rightarrow> variable list \<Rightarrow> variable_map" where
  "lookup_or_add_append uv p vs =
     (if contains uv p then map (\<lambda>(k, ws). if k = p then (k, ws @ vs) else (k, ws)) uv
      else uv @ [(p, vs)])"

text \<open>
  \<open>get_field_variable\<close>: \<open>lookup\<close> requires the key, \<open>first()\<close> a non-empty
  vector and \<open>operator[]\<close> an index in range.
\<close>

definition get_field_variable :: "field_store \<Rightarrow> gfield \<Rightarrow> variable_map \<Rightarrow> variable option" where
  "get_field_variable g field uv =
     (if is_input g field then
        (case map_of uv (source_ptr field) of
           None \<Rightarrow> None
         | Some vs \<Rightarrow> (case vs of [] \<Rightarrow> None | v # _ \<Rightarrow> Some v))
      else
        (case map_of uv (source_ptr field) of
           None \<Rightarrow> None
         | Some operation_outputs \<Rightarrow>
             if source_output_index field < length operation_outputs
             then Some (operation_outputs ! source_output_index field)
             else None))"

subsection \<open>Building the procedure\<close>

text \<open>The worklist state: the stack \<open>fields_to_visit\<close> (top first), the procedure under
  construction and the unique-variable map.\<close>

record build_state =
  fields_to_visit :: "gfield list"
  builder :: procedure
  unique_variables :: variable_map

definition add_variables_for_input :: "field_store \<Rightarrow> gfield \<Rightarrow> build_state \<Rightarrow> error + build_state" where
  "add_variables_for_input g field s =
     (case g (source_ptr field) of
        FieldOperation _ _ \<Rightarrow> Inl PreconditionViolated
      | FieldInput _ debug_name \<Rightarrow>
          (let (v, p) = add_input_parameter (cpp_type_of g field) debug_name (builder s)
           in Inr \<lparr>fields_to_visit = tl (fields_to_visit s),
                   builder = p,
                   unique_variables = map_add_new (unique_variables s) (source_ptr field) [v]\<rparr>))"

definition add_variables_for_operation :: "field_store \<Rightarrow> gfield \<Rightarrow> build_state \<Rightarrow> error + build_state" where
  "add_variables_for_operation g field s =
     (case g (source_ptr field) of
        FieldInput _ _ \<Rightarrow> Inl PreconditionViolated
      | FieldOperation fn inputs \<Rightarrow>
          (case find (\<lambda>input_field. \<not> contains (unique_variables s) (source_ptr input_field)) inputs of
             Some input_field \<Rightarrow> Inr (s\<lparr>fields_to_visit := input_field # fields_to_visit s\<rparr>)
           | None \<Rightarrow>
               (case those (map (\<lambda>input_field. get_field_variable g input_field (unique_variables s)) inputs) of
                  None \<Rightarrow> Inl PreconditionViolated
                | Some ins \<Rightarrow>
                    (let (outs, p) = add_call fn ins (builder s)
                     in Inr \<lparr>fields_to_visit = tl (fields_to_visit s),
                             builder = p,
                             unique_variables =
                               lookup_or_add_append (unique_variables s) (source_ptr field) outs\<rparr>))))"

text \<open>
  In \<open>add_variables_for_operation\<close> the set \<open>unique_inputs\<close> is filled and never read,
  so it is left out; the map entry of the operation is made by \<open>lookup_or_add\<close> and
  the call's outputs are appended to it.
\<close>

text \<open>One iteration of the \<open>while\<close> loop of \<open>add_unique_variables\<close> on a non-empty stack.\<close>

definition visit_top :: "field_store \<Rightarrow> build_state \<Rightarrow> error + build_state" where
  "visit_top g s =
     (let field = hd (fields_to_visit s) in
      if contains (unique_variables s) (source_ptr field)
      then Inr (s\<lparr>fields_to_visit := tl (fields_to_visit s)\<rparr>)
      else if is_input g field then add_variables_for_input g field s
      else add_variables_for_operation g field s)"

partial_function (option) visit_fields :: "field_store \<Rightarrow> build_state \<Rightarrow> (error + build_state) option" where
  "visit_fields g s =
     (if fields_to_visit s = [] then Some (Inr s)
      else (case visit_top g s of
              Inl e \<Rightarrow> Some (Inl e)
            | Inr s' \<Rightarrow> visit_fields g s'))"

declare visit_fields.simps [code]

text \<open>\<open>add_unique_variables\<close>: every requested field is pushed, so the last one is on top.\<close>

definition add_unique_variables ::
  "field_store \<Rightarrow> gfield list \<Rightarrow> procedure \<Rightarrow> variable_map \<Rightarrow> (error + procedure \<times> variable_map) option" where
  "add_unique_variables g requested p uv =
     (case visit_fields g \<lparr>fields_to_visit = rev requested, builder = p, unique_variables = uv\<rparr> of
        None \<Rightarrow> None
      | Some (Inl e) \<Rightarrow> Some (Inl e)
      | Some (Inr s) \<Rightarrow> Some (Inr (builder s, unique_variables s)))"

text \<open>
  \<open>add_destructs\<close>: the set of output variables first (with assertions active a
  requested input field fails \<open>BLI_assert(!field.is_input())\<close>), then one destruct for
  every other variable of the map. The set \<open>destructed_variables\<close> of the source is
  never used.
\<close>

fun output_variables ::
  "bool \<Rightarrow> field_store \<Rightarrow> gfield list \<Rightarrow> variable_map \<Rightarrow> variable set \<Rightarrow> error + variable set" where
  "output_variables assertions g [] uv outputs = Inr outputs"
| "output_variables assertions g (field # rest) uv outputs =
     (if assertions \<and> is_input g field then Inl AssertionFailed
      else (case get_field_variable g field uv of
              None \<Rightarrow> Inl PreconditionViolated
            | Some v \<Rightarrow> output_variables assertions g rest uv (insert v outputs)))"

definition add_destructs ::
  "bool \<Rightarrow> field_store \<Rightarrow> gfield list \<Rightarrow> procedure \<Rightarrow> variable_map \<Rightarrow> error + procedure" where
  "add_destructs assertions g requested p uv =
     (case output_variables assertions g requested uv {} of
        Inl e \<Rightarrow> Inl e
      | Inr outputs \<Rightarrow>
          Inr (fold (\<lambda>variable b. if variable \<in> outputs then b else add_destruct variable b)
                 (concat (map snd uv)) p))"

fun add_output_parameters :: "field_store \<Rightarrow> gfield list \<Rightarrow> variable_map \<Rightarrow> procedure \<Rightarrow> error + procedure" where
  "add_output_parameters g [] uv p = Inr p"
| "add_output_parameters g (field # rest) uv p =
     (case get_field_variable g field uv of
        None \<Rightarrow> Inl PreconditionViolated
      | Some v \<Rightarrow> add_output_parameters g rest uv (add_output_parameter v p))"

text \<open>
  Modelled from the spec: \<open>MFProcedure::validate\<close> is not among the sources of field.cc.
  Structural validation: every variable referenced by a call was produced by a strictly
  earlier instruction or is a parameter, and every output parameter names a produced
  variable.
\<close>

fun input_parameters :: "instruction list \<Rightarrow> variable list" where
  "input_parameters [] = []"
| "input_parameters (InputParameter v # rest) = v # input_parameters rest"
| "input_parameters (_ # rest) = input_parameters rest"

fun output_parameters :: "instruction list \<Rightarrow> variable list" where
  "output_parameters [] = []"
| "output_parameters (OutputParameter v # rest) = v # output_parameters rest"
| "output_parameters (_ # rest) = output_parameters rest"

fun validate_instructions :: "variable set \<Rightarrow> variable set \<Rightarrow> instruction list \<Rightarrow> bool" where
  "validate_instructions params produced [] = True"
| "validate_instructions params produced (InputParameter v # rest) =
     validate_instructions params (insert v produced) rest"
| "validate_instructions params produced (Call fn ins outs # rest) =
     (set ins \<subseteq> params \<union> produced \<and> validate_instructions params (produced \<union> set outs) rest)"
| "validate_instructions params produced (OutputParameter v # rest) =
     (v \<in> params \<union> produced \<and> validate_instructions params produced rest)"
| "validate_instructions params produced (_ # rest) = validate_instructions params produced rest"

definition validate :: "procedure \<Rightarrow> bool" where
  "validate p = validate_instructions (set (input_parameters (instructions p))) {} (instructions p)"

text \<open>
  \<open>build_procedure\<close>; the procedure and the map are the caller's, passed in empty. The
  closing \<open>BLI_assert(procedure.validate())\<close> aborts only with assertions active.
\<close>

definition build_procedure ::
  "bool \<Rightarrow> field_store \<Rightarrow> gfield list \<Rightarrow> procedure \<Rightarrow> variable_map \<Rightarrow> (error + procedure \<times> variable_map) option" where
  "build_procedure assertions g requested procedure uv0 =
     (case add_unique_variables g requested procedure uv0 of
        None \<Rightarrow> None
      | Some (Inl e) \<Rightarrow> Some (Inl e)
      | Some (Inr (p1, uv)) \<Rightarrow>
          (case add_destructs assertions g requested p1 uv of
             Inl e \<Rightarrow> Some (Inl e)
           | Inr p2 \<Rightarrow>
               (case add_output_parameters g requested uv (add_return p2) of
                  Inl e \<Rightarrow> Some (Inl e)
                | Inr p3 \<Rightarrow>
                    if assertions \<and> \<not> validate p3 then Some (Inl AssertionFailed)
                    else Some (Inr (p3, uv)))))"

subsection \<open>Evaluation\<close>

text \<open>
  An index mask is the list of targeted indices, a virtual array maps an index to its
  element, and a caller-owned buffer is a list of elements. The data-production
  capability of the inputs (\<open>get_varray_generic_context\<close>) and the elementwise
  functions are collaborators, taken as parameters.
\<close>

type_synonym index_mask = "nat list"
type_synonym gvarray = "nat \<Rightarrow> int"
type_synonym data_source = "source_ptr \<Rightarrow> index_mask \<Rightarrow> gvarray"
type_synonym fn_semantics = "multi_function \<Rightarrow> int list \<Rightarrow> int list"

text \<open>
  \<open>materialize(mask, dst)\<close>: writes the masked elements only. A buffer is pre-sized for
  the mask by the caller's contract; on a shorter one the list update writes nothing.
\<close>

definition materialize :: "gvarray \<Rightarrow> index_mask \<Rightarrow> int list \<Rightarrow> int list" where
  "materialize data msk dst = fold (\<lambda>i b. b[i := data i]) msk dst"

text \<open>
  \<open>gather_inputs\<close>: the worklist state holds the stack (top first), the set
  \<open>computed_inputs\<close>, the readonly inputs added to the parameters so far, and the
  sources whose data was pulled, in call order.
\<close>

record gather_state =
  gather_to_visit :: "gfield list"
  computed_inputs :: "variable set"
  param_inputs :: "gvarray list"
  pulled :: "source_ptr list"

definition gather_top :: "field_store \<Rightarrow> data_source \<Rightarrow> variable_map \<Rightarrow> index_mask \<Rightarrow> gather_state \<Rightarrow> error + gather_state" where
  "gather_top g get_varray uv msk s =
     (let field = hd (gather_to_visit s); rest = tl (gather_to_visit s) in
      if is_input g field then
        (case get_field_variable g field uv of
           None \<Rightarrow> Inl PreconditionViolated
         | Some variable \<Rightarrow>
             if variable \<in> computed_inputs s then Inr (s\<lparr>gather_to_visit := rest\<rparr>)
             else Inr \<lparr>gather_to_visit = rest,
                       computed_inputs = insert variable (computed_inputs s),
                       param_inputs = param_inputs s @ [get_varray (source_ptr field) msk],
                       pulled = pulled s @ [source_ptr field]\<rparr>)
      else
        (case g (source_ptr field) of
           FieldInput _ _ \<Rightarrow> Inl PreconditionViolated
         | FieldOperation fn inputs \<Rightarrow> Inr (s\<lparr>gather_to_visit := rev inputs @ rest\<rparr>)))"

partial_function (option) gather_loop ::
  "field_store \<Rightarrow> data_source \<Rightarrow> variable_map \<Rightarrow> index_mask \<Rightarrow> gather_state \<Rightarrow> (error + gather_state) option" where
  "gather_loop g get_varray uv msk s =
     (if gather_to_visit s = [] then Some (Inr s)
      else (case gather_top g get_varray uv msk s of
              Inl e \<Rightarrow> Some (Inl e)
            | Inr s' \<Rightarrow> gather_loop g get_varray uv msk s'))"

declare gather_loop.simps [code]

definition gather_inputs ::
  "field_store \<Rightarrow> data_source \<Rightarrow> gfield list \<Rightarrow> variable_map \<Rightarrow> index_mask \<Rightarrow> (error + gather_state) option" where
  "gather_inputs g get_varray requested uv msk =
     gather_loop g get_varray uv msk
       \<lparr>gather_to_visit = rev requested, computed_inputs = {}, param_inputs = [], pulled = []\<rparr>"

text \<open>
  Modelled from the spec: \<open>MFProcedureExecutor\<close> and \<open>MFParamsBuilder\<close> are not
  among the sources of field.cc. The executor declares one readonly-input slot per
  input-parameter declaration and one output slot per output-parameter declaration of
  the procedure, in declaration order; the parameters added by the caller fill these
  slots in the order they were added. A call runs the instructions up to the return
  over the masked elements and writes the output variables into their buffers.
\<close>

type_synonym variable_state = "variable \<Rightarrow> gvarray option"

fun run_instructions :: "fn_semantics \<Rightarrow> instruction list \<Rightarrow> variable_state \<Rightarrow> error + variable_state" where
  "run_instructions sem [] env = Inr env"
| "run_instructions sem (Return # rest) env = Inr env"
| "run_instructions sem (InputParameter v # rest) env = run_instructions sem rest env"
| "run_instructions sem (OutputParameter v # rest) env = run_instructions sem rest env"
| "run_instructions sem (Destruct v # rest) env =
     (case env v of
        None \<Rightarrow> Inl PreconditionViolated
      | Some _ \<Rightarrow> run_instructions sem rest (env(v := None)))"
| "run_instructions sem (Call fn ins outs # rest) env =
     (case those (map env ins) of
        None \<Rightarrow> Inl PreconditionViolated
      | Some arrays \<Rightarrow>
          run_instructions sem rest
            (fold (\<lambda>k e. e(outs ! k \<mapsto> (\<lambda>i. sem fn (map (\<lambda>a. a i) arrays) ! k)))
               [0 ..< length outs] env))"

fun write_outputs :: "variable_state \<Rightarrow> index_mask \<Rightarrow> (variable \<times> nat) list \<Rightarrow> int list list \<Rightarrow> error + int list list" where
  "write_outputs env msk [] buffers = Inr buffers"
| "write_outputs env msk ((v, span) # rest) buffers =
     (case env v of
        None \<Rightarrow> Inl PreconditionViolated
      | Some data \<Rightarrow>
          write_outputs env msk rest (buffers[span := materialize data msk (buffers ! span)]))"

definition executor_call ::
  "fn_semantics \<Rightarrow> procedure \<Rightarrow> index_mask \<Rightarrow> gvarray list \<Rightarrow> nat list \<Rightarrow> int list list \<Rightarrow> error + int list list" where
  "executor_call sem p msk inputs outputs buffers =
     (let in_slots = input_parameters (instructions p);
          out_slots = output_parameters (instructions p) in
      if length inputs \<noteq> length in_slots \<or> length outputs \<noteq> length out_slots
      then Inl PreconditionViolated
      else (case run_instructions sem (instructions p) (map_of (zip in_slots inputs)) of
              Inl e \<Rightarrow> Inl e
            | Inr env \<Rightarrow> write_outputs env msk (zip out_slots outputs) buffers))"

text \<open>
  What a call leaves behind: whether it failed, the caller's output buffers, the
  sources whose data was pulled (in call order), and the procedure that was built,
  if any.
\<close>

record outcome =
  status :: "error option"
  buffers :: "int list list"
  varray_calls :: "source_ptr list"
  built :: "procedure option"

text \<open>
  \<open>evaluate_non_input_fields\<close>; an output span is the position of the caller's buffer
  it views.
\<close>

definition evaluate_non_input_fields ::
  "bool \<Rightarrow> fn_semantics \<Rightarrow> data_source \<Rightarrow> field_store \<Rightarrow> gfield list \<Rightarrow> index_mask \<Rightarrow> nat list \<Rightarrow> outcome \<Rightarrow> outcome option" where
  "evaluate_non_input_fields assertions sem get_varray g requested msk outputs w =
     (case build_procedure assertions g requested empty_procedure [] of
        None \<Rightarrow> None
      | Some (Inl e) \<Rightarrow> Some (w\<lparr>status := Some e\<rparr>)
      | Some (Inr (procedure, uv)) \<Rightarrow>
          (case gather_inputs g get_varray requested uv msk of
             None \<Rightarrow> None
           | Some (Inl e) \<Rightarrow> Some (w\<lparr>status := Some e, built := Some procedure\<rparr>)
           | Some (Inr gs) \<Rightarrow>
               (let w' = w\<lparr>varray_calls := varray_calls w @ pulled gs, built := Some procedure\<rparr> in
                case executor_call sem procedure msk (param_inputs gs) outputs (buffers w') of
                  Inl e \<Rightarrow> Some (w'\<lparr>status := Some e\<rparr>)
                | Inr bs \<Rightarrow> Some (w'\<lparr>buffers := bs\<rparr>))))"

text \<open>
  Modelled from the spec: the generic containers are collaborators outside the sources.
  \<open>Vector::remove_and_reorder\<close> removes the element at an index by moving the last
  element into its place.
\<close>

definition remove_and_reorder :: "'a list \<Rightarrow> nat \<Rightarrow> 'a list" where
  "remove_and_reorder xs i = butlast (xs[i := last xs])"

text \<open>
  The loop of \<open>evaluate_fields\<close> over \<open>i = size - 1, ..., 0\<close>; \<open>Suc i\<close> stands for the
  iteration at position \<open>i\<close>. Only positions above \<open>i\<close> have been removed before, so
  position \<open>i\<close> of \<open>non_input_fields\<close> is in range and still holds the \<open>i\<close>-th request.
  When there are fewer buffers than requested fields (which only a build without
  assertions lets through), \<open>outputs[i]\<close> and the removal from \<open>non_input_outputs\<close> can
  be out of range: the data of the input has been pulled by then, and the loop stops
  there with \<open>PreconditionViolated\<close>.
\<close>

record split_state =
  non_input_fields :: "gfield list"
  non_input_outputs :: "nat list"
  world :: outcome

fun process_input_fields :: "data_source \<Rightarrow> field_store \<Rightarrow> index_mask \<Rightarrow> nat \<Rightarrow> split_state \<Rightarrow> split_state" where
  "process_input_fields get_varray g msk 0 s = s"
| "process_input_fields get_varray g msk (Suc i) s =
     (if is_input g (non_input_fields s ! i) then
        (if i < length (buffers (world s)) \<and> i < length (non_input_outputs s) then
           process_input_fields get_varray g msk i
             (let src = source_ptr (non_input_fields s ! i); w = world s in
              \<lparr>non_input_fields = remove_and_reorder (non_input_fields s) i,
               non_input_outputs = remove_and_reorder (non_input_outputs s) i,
               world = w\<lparr>buffers := (buffers w)[i := materialize (get_varray src msk) msk (buffers w ! i)],
                         varray_calls := varray_calls w @ [src]\<rparr>\<rparr>)
         else s\<lparr>world := (world s)\<lparr>status := Some PreconditionViolated,
                                  varray_calls := varray_calls (world s) @ [source_ptr (non_input_fields s ! i)]\<rparr>\<rparr>)
      else process_input_fields get_varray g msk i s)"

text \<open>
  \<open>evaluate_fields\<close>. The only check of the two lengths is
  \<open>BLI_assert(fields.size() == outputs.size())\<close>: with assertions active a mismatch
  aborts the call at once, without them the body runs on the mismatched lengths.
\<close>

definition evaluate_fields ::
  "bool \<Rightarrow> fn_semantics \<Rightarrow> data_source \<Rightarrow> field_store \<Rightarrow> gfield list \<Rightarrow> index_mask \<Rightarrow> int list list \<Rightarrow> outcome option" where
  "evaluate_fields assertions sem get_varray g requested msk outputs =
     (let w0 = \<lparr>status = None, buffers = outputs, varray_calls = [], built = None\<rparr> in
      if assertions \<and> length requested \<noteq> length outputs
      then Some (w0\<lparr>status := Some AssertionFailed\<rparr>)
      else
        (let s = process_input_fields get_varray g msk (length requested)
                   \<lparr>non_input_fields = requested, non_input_outputs = [0 ..< length outputs], world = w0\<rparr>
         in if status (world s) \<noteq> None then Some (world s)
            else if non_input_fields s \<noteq> []
            then evaluate_non_input_fields assertions sem get_varray g
                   (non_input_fields s) msk (non_input_outputs s) (world s)
            else Some (world s)))"

text \<open>\<open>evaluate_constant_field\<close>: \<open>r_value\<close> is the content of the caller's one-element storage.\<close>

definition evaluate_constant_field ::
  "bool \<Rightarrow> fn_semantics \<Rightarrow> data_source \<Rightarrow> field_store \<Rightarrow> gfield \<Rightarrow> int \<Rightarrow> outcome option" where
  "evaluate_constant_field assertions sem get_varray g field r_value =
     evaluate_fields assertions sem get_varray g [field] [0] [[r_value]]"

subsection \<open>The value of a field\<close>

text \<open>
  The value a field denotes at an element: an input's datum, or the selected output of
  the operation's function applied to the values of its input fields. The first
  argument bounds the depth of the graph.
\<close>

fun field_value :: "nat \<Rightarrow> fn_semantics \<Rightarrow> data_source \<Rightarrow> field_store \<Rightarrow> index_mask \<Rightarrow> gfield \<Rightarrow> nat \<Rightarrow> int option" where
  "field_value 0 sem get_varray g msk field i = None"
| "field_value (Suc d) sem get_varray g msk field i =
     (case g (source_ptr field) of
        FieldInput _ _ \<Rightarrow> Some (get_varray (source_ptr field) msk i)
      | FieldOperation fn inputs \<Rightarrow>
          (case those (map (\<lambda>f. field_value d sem get_varray g msk f i) inputs) of
             None \<Rightarrow> None
           | Some vs \<Rightarrow> Some (sem fn vs ! source_output_index field)))"

subsection \<open>Well-formed field graphs\<close>

text \<open>
  A field names a source among the first \<open>n\<close> addresses and, for an operation, one of
  its outputs.
\<close>

definition valid_field :: "nat \<Rightarrow> field_store \<Rightarrow> gfield \<Rightarrow> bool" where
  "valid_field n g field =
     (source_ptr field < n \<and>
      (case g (source_ptr field) of
         FieldInput _ _ \<Rightarrow> True
       | FieldOperation fn _ \<Rightarrow> source_output_index field < length (fn_outputs fn)))"

text \<open>
  The graph of the sources at the first \<open>n\<close> addresses is finite. It is acyclic when
  some rank decreases from every operation to the sources of its input fields (sources
  are immutable and hold their input fields from construction on, so the order of
  construction is such a rank).
\<close>

definition acyclic_store :: "nat \<Rightarrow> (source_ptr \<Rightarrow> nat) \<Rightarrow> field_store \<Rightarrow> bool" where
  "acyclic_store n rank g =
     list_all (\<lambda>p. case g p of
                      FieldInput _ _ \<Rightarrow> True
                    | FieldOperation fn inputs \<Rightarrow>
                        list_all (\<lambda>f. rank (source_ptr f) < rank p \<and> valid_field n g f) inputs)
       [0 ..< n]"

inductive_set reachable :: "field_store \<Rightarrow> source_ptr set \<Rightarrow> source_ptr set"
  for g :: field_store and roots :: "source_ptr set" where
  root: "p \<in> roots \<Longrightarrow> p \<in> reachable g roots"
| input: "p \<in> reachable g roots \<Longrightarrow> g p = FieldOperation fn inputs \<Longrightarrow> f \<in> set inputs
          \<Longrightarrow> source_ptr f \<in> reachable g roots"

definition is_input_source :: "field_source \<Rightarrow> bool" where
  "is_input_source src = (case src of FieldInput _ _ \<Rightarrow> True | FieldOperation _ _ \<Rightarrow> False)"

text \<open>The instruction that materializes an entry of the unique-variable map.\<close>

definition entry_instruction :: "field_store \<Rightarrow> variable_map \<Rightarrow> source_ptr \<times> variable list \<Rightarrow> instruction" where
  "entry_instruction g uv e =
     (case g (fst e) of
        FieldInput _ _ \<Rightarrow> InputParameter (hd (snd e))
      | FieldOperation fn inputs \<Rightarrow>
          Call fn (map (\<lambda>f. the (get_field_variable g f uv)) inputs) (snd e))"

text \<open>The variables an instruction list produces.\<close>

fun produced :: "instruction list \<Rightarrow> variable set" where
  "produced [] = {}"
| "produced (InputParameter v # rest) = insert v (produced rest)"
| "produced (Call fn ins outs # rest) = set outs \<union> produced rest"
| "produced (_ # rest) = produced rest"

text \<open>The invariant of the worklist of \<open>add_unique_variables\<close>, for requested fields \<open>R\<close>.\<close>

definition entry_ok :: "nat \<Rightarrow> field_store \<Rightarrow> variable_map \<Rightarrow> source_ptr \<times> variable list \<Rightarrow> bool" where
  "entry_ok n g uv e =
     (fst e < n \<and>
      (case g (fst e) of
         FieldInput _ _ \<Rightarrow> length (snd e) = 1
       | FieldOperation fn inputs \<Rightarrow>
           length (snd e) = length (fn_outputs fn) \<and>
           (\<forall>f \<in> set inputs. contains uv (source_ptr f))))"

definition build_inv :: "nat \<Rightarrow> field_store \<Rightarrow> gfield list \<Rightarrow> build_state \<Rightarrow> bool" where
  "build_inv n g R s =
     ((\<forall>f \<in> set (fields_to_visit s). valid_field n g f) \<and>
      distinct (map fst (unique_variables s)) \<and>
      concat (map snd (unique_variables s)) = [0 ..< length (variables (builder s))] \<and>
      instructions (builder s) = map (entry_instruction g (unique_variables s)) (unique_variables s) \<and>
      (\<forall>e \<in> set (unique_variables s). entry_ok n g (unique_variables s) e) \<and>
      validate_instructions {} {} (instructions (builder s)) \<and>
      produced (instructions (builder s)) = set (concat (map snd (unique_variables s))) \<and>
      source_ptr ` set (fields_to_visit s) \<union> fst ` set (unique_variables s)
        \<subseteq> reachable g (source_ptr ` set R) \<and>
      (\<forall>f \<in> set R. contains (unique_variables s) (source_ptr f) \<or> f \<in> set (fields_to_visit s)))"

text \<open>
  The instructions of a finished procedure for the requested fields \<open>R\<close>: one
  instruction per map entry, the destructs of the variables that are no outputs, the
  return, and one output-parameter declaration per requested field.
\<close>

definition requested_variables :: "field_store \<Rightarrow> variable_map \<Rightarrow> gfield list \<Rightarrow> variable list" where
  "requested_variables g uv R = map (\<lambda>f. the (get_field_variable g f uv)) R"

definition built_instructions :: "field_store \<Rightarrow> variable_map \<Rightarrow> gfield list \<Rightarrow> instruction list" where
  "built_instructions g uv R =
     map (entry_instruction g uv) uv @
     map Destruct (filter (\<lambda>v. v \<notin> set (requested_variables g uv R)) (concat (map snd uv))) @
     Return # map OutputParameter (requested_variables g uv R)"



text \<open>The three components of the termination measure of the worklist.\<close>

definition unmapped_count :: "nat \<Rightarrow> build_state \<Rightarrow> nat" where
  "unmapped_count n s = card ({..<n} - fst ` set (unique_variables s))"

definition top_resolved :: "build_state \<Rightarrow> nat" where
  "top_resolved s =
     (if fields_to_visit s = [] \<or> contains (unique_variables s) (source_ptr (hd (fields_to_visit s)))
      then 1 else 0)"

definition top_rank :: "(source_ptr \<Rightarrow> nat) \<Rightarrow> build_state \<Rightarrow> nat" where
  "top_rank rank s =
     (if fields_to_visit s = [] \<or> contains (unique_variables s) (source_ptr (hd (fields_to_visit s)))
      then length (fields_to_visit s)
      else rank (source_ptr (hd (fields_to_visit s))))"

text \<open>
  The invariant of the loop of \<open>evaluate_fields\<close> when the positions from \<open>i\<close> on have
  been processed: the two vectors still hold the first \<open>i\<close> requested fields and buffer
  positions, followed by the operation-rooted fields among the processed positions, each
  with its own buffer position, in some order; the buffers of the processed bare inputs
  hold their materialized data.
\<close>

definition materialized_outputs ::
  "data_source \<Rightarrow> field_store \<Rightarrow> index_mask \<Rightarrow> (gfield \<times> int list) list \<Rightarrow> int list list" where
  "materialized_outputs get_varray g msk =
     map (\<lambda>(f, b). if is_input g f then materialize (get_varray (source_ptr f) msk) msk b else b)"

definition split_inv ::
  "data_source \<Rightarrow> field_store \<Rightarrow> index_mask \<Rightarrow> gfield list \<Rightarrow> int list list \<Rightarrow> nat \<Rightarrow> split_state \<Rightarrow> bool" where
  "split_inv get_varray g msk requested outputs i s =
     (\<exists>rest.
        non_input_fields s = take i requested @ map fst rest \<and>
        non_input_outputs s = [0 ..< i] @ map snd rest \<and>
        mset rest = mset (filter (\<lambda>(f, j). \<not> is_input g f)
                            (zip (drop i requested) [i ..< length requested])) \<and>
        buffers (world s) =
          take i outputs @ materialized_outputs get_varray g msk (drop i (zip requested outputs)) \<and>
        varray_calls (world s) = map source_ptr (filter (is_input g) (rev (drop i requested))) \<and>
        status (world s) = None \<and> built (world s) = None)"

text \<open>
  The invariant of the worklist of \<open>gather_inputs\<close>, for requested fields \<open>R\<close> and the
  map \<open>uv\<close> of the build: the pulled sources are distinct reachable inputs, the
  computed variables are theirs, the parameters hold their data in the same order, and
  every reachable input is pulled already or still reachable from the stack.
\<close>

definition gather_inv ::
  "nat \<Rightarrow> field_store \<Rightarrow> data_source \<Rightarrow> variable_map \<Rightarrow> index_mask \<Rightarrow> gfield list \<Rightarrow> gather_state \<Rightarrow> bool" where
  "gather_inv n g get_varray uv msk R s =
     ((\<forall>f \<in> set (gather_to_visit s). valid_field n g f \<and> contains uv (source_ptr f)) \<and>
      distinct (pulled s) \<and>
      (\<forall>q \<in> set (pulled s). is_input_source (g q) \<and> q \<in> reachable g (source_ptr ` set R)) \<and>
      computed_inputs s = {v. \<exists>q \<in> set (pulled s). map_of uv q = Some [v]} \<and>
      param_inputs s = map (\<lambda>q. get_varray q msk) (pulled s) \<and>
      source_ptr ` set (gather_to_visit s) \<subseteq> reachable g (source_ptr ` set R) \<and>
      {q \<in> reachable g (source_ptr ` set R). is_input_source (g q)}
        \<subseteq> set (pulled s) \<union> reachable g (source_ptr ` set (gather_to_visit s)))"

subsection \<open>A concrete field graph\<close>

text \<open>
  Inputs \<open>A\<close> (address 0) and \<open>B\<close> (address 1); \<open>sub(A, B)\<close> at address 2; at address 3
  an operation with the two outputs \<open>x + y\<close> and \<open>x * y\<close>, applied to \<open>sub(A, B)\<close> and
  \<open>A\<close>.
\<close>

definition example_store :: field_store where
  "example_store p =
     (if p = 2 then FieldOperation (MultiFunction 0 [0]) [GField 0 0, GField 1 0]
      else if p = 3 then FieldOperation (MultiFunction 1 [0, 0]) [GField 2 0, GField 0 0]
      else FieldInput 0 (if p = 0 then ''A'' else ''B''))"

definition example_semantics :: fn_semantics where
  "example_semantics fn vs =
     (if fn_id fn = 0 then [vs ! 0 - vs ! 1] else [vs ! 0 + vs ! 1, vs ! 0 * vs ! 1])"

definition example_data :: data_source where
  "example_data p msk i = (if p = 0 then 5 else 3)"

section \<open>Properties\<close>

subsection \<open>Maps, variables and validation\<close>

lemma contains_iff: "contains uv p \<longleftrightarrow> p \<in> fst ` set uv"
  by (simp add: contains_def map_of_eq_None_iff)

lemma acyclic_storeD:
  assumes "acyclic_store n rank g" "p < n" "g p = FieldOperation fn inputs" "f \<in> set inputs"
  shows "rank (source_ptr f) < rank p \<and> valid_field n g f"
proof -
  from assms(1,2) have "case g p of FieldInput _ _ \<Rightarrow> True
      | FieldOperation fn inputs \<Rightarrow>
          list_all (\<lambda>f. rank (source_ptr f) < rank p \<and> valid_field n g f) inputs"
    by (simp add: acyclic_store_def list_all_iff)
  with assms(3,4) show ?thesis by (simp add: list_all_iff)
qed

lemma map_of_append_old:
  assumes "p \<in> fst ` set uv"
  shows "map_of (uv @ [(q, vs)]) p = map_of uv p"
proof (cases "map_of uv p")
  case None
  with assms show ?thesis by (simp add: map_of_eq_None_iff)
next
  case (Some ws)
  then show ?thesis by (simp add: map_add_def)
qed

lemma map_of_append_new:
  assumes "p \<notin> fst ` set uv"
  shows "map_of (uv @ [(p, vs)]) p = Some vs"
proof -
  from assms have "map_of uv p = None" by (simp add: map_of_eq_None_iff)
  then show ?thesis by (simp add: map_add_def)
qed

lemma gfv_append_old:
  "contains uv (source_ptr f) \<Longrightarrow> get_field_variable g f (uv @ [(q, vs)]) = get_field_variable g f uv"
  unfolding get_field_variable_def contains_iff by (simp only: map_of_append_old)

lemma gfv_defined:
  assumes "distinct (map fst uv)" "(source_ptr f, vs) \<in> set uv" "entry_ok n g uv (source_ptr f, vs)"
    "valid_field n g f"
  shows "\<exists>v. get_field_variable g f uv = Some v \<and> v \<in> set vs"
proof -
  from assms(1,2) have m: "map_of uv (source_ptr f) = Some vs" by simp
  show ?thesis
  proof (cases "g (source_ptr f)")
    case (FieldInput ty name)
    with assms(3) have "length vs = 1" by (simp add: entry_ok_def)
    then obtain v where "vs = [v]" by (cases vs) auto
    with m FieldInput show ?thesis by (simp add: get_field_variable_def is_input_def)
  next
    case (FieldOperation fn inputs)
    with assms(3,4) have "source_output_index f < length vs"
      by (simp add: entry_ok_def valid_field_def)
    with m FieldOperation show ?thesis by (simp add: get_field_variable_def is_input_def)
  qed
qed

lemma those_map_Some:
  "\<forall>x \<in> set xs. f x \<noteq> None \<Longrightarrow> those (map f xs) = Some (map (\<lambda>x. the (f x)) xs)"
  by (induction xs) auto

lemma produced_append: "produced (xs @ ys) = produced xs \<union> produced ys"
  by (induction xs rule: produced.induct) auto

lemma validate_instructions_append:
  "validate_instructions P A (xs @ ys) =
     (validate_instructions P A xs \<and> validate_instructions P (A \<union> produced xs) ys)"
  by (induction P A xs rule: validate_instructions.induct) (auto simp: Un_assoc Un_commute Un_left_commute)

lemma validate_instructions_mono:
  "validate_instructions P A xs \<Longrightarrow> P \<subseteq> P' \<Longrightarrow> A \<subseteq> A' \<Longrightarrow> validate_instructions P' A' xs"
proof (induction P A xs arbitrary: A' rule: validate_instructions.induct)
  case (2 params produced v rest)
  then show ?case by (auto intro: "2.IH")
next
  case (3 params produced fn ins outs rest)
  then show ?case by (auto intro: "3.IH")
qed auto

subsection \<open>The steps of the worklist\<close>

lemma visit_top_pop:
  assumes "contains (unique_variables s) (source_ptr (hd (fields_to_visit s)))"
  shows "visit_top g s = Inr (s\<lparr>fields_to_visit := tl (fields_to_visit s)\<rparr>)"
  using assms by (simp add: visit_top_def)

lemma visit_top_input:
  assumes "\<not> contains (unique_variables s) (source_ptr (hd (fields_to_visit s)))"
    and "g (source_ptr (hd (fields_to_visit s))) = FieldInput ty name"
  shows "visit_top g s =
     Inr \<lparr>fields_to_visit = tl (fields_to_visit s),
          builder = \<lparr>variables = variables (builder s) @ [(ty, name)],
                     instructions = instructions (builder s) @ [InputParameter (length (variables (builder s)))]\<rparr>,
          unique_variables = unique_variables s @
             [(source_ptr (hd (fields_to_visit s)), [length (variables (builder s))])]\<rparr>"
  using assms
  by (simp add: visit_top_def is_input_def add_variables_for_input_def add_input_parameter_def
      map_add_new_def cpp_type_of_def Let_def)

lemma visit_top_push:
  assumes "\<not> contains (unique_variables s) (source_ptr (hd (fields_to_visit s)))"
    and "g (source_ptr (hd (fields_to_visit s))) = FieldOperation fn inputs"
    and "find (\<lambda>f. \<not> contains (unique_variables s) (source_ptr f)) inputs = Some input_field"
  shows "visit_top g s = Inr (s\<lparr>fields_to_visit := input_field # fields_to_visit s\<rparr>)"
  using assms by (simp add: visit_top_def is_input_def add_variables_for_operation_def)

lemma visit_top_call:
  assumes "\<not> contains (unique_variables s) (source_ptr (hd (fields_to_visit s)))"
    and "g (source_ptr (hd (fields_to_visit s))) = FieldOperation fn inputs"
    and "find (\<lambda>f. \<not> contains (unique_variables s) (source_ptr f)) inputs = None"
    and "\<forall>f \<in> set inputs. get_field_variable g f (unique_variables s) \<noteq> None"
  shows "visit_top g s =
     Inr \<lparr>fields_to_visit = tl (fields_to_visit s),
          builder = \<lparr>variables = variables (builder s) @ map (\<lambda>ty. (ty, [])) (fn_outputs fn),
                     instructions = instructions (builder s) @
                       [Call fn (map (\<lambda>f. the (get_field_variable g f (unique_variables s))) inputs)
                          [length (variables (builder s)) ..<
                             length (variables (builder s)) + length (fn_outputs fn)]]\<rparr>,
          unique_variables = unique_variables s @
             [(source_ptr (hd (fields_to_visit s)),
               [length (variables (builder s)) ..< length (variables (builder s)) + length (fn_outputs fn)])]\<rparr>"
  using assms
  by (simp add: visit_top_def is_input_def add_variables_for_operation_def add_call_def
      lookup_or_add_append_def those_map_Some Let_def)

subsection \<open>The invariant of add_unique_variables\<close>

lemma entry_ok_mono:
  "entry_ok n g uv e \<Longrightarrow> fst ` set uv \<subseteq> fst ` set uv' \<Longrightarrow> entry_ok n g uv' e"
  unfolding entry_ok_def contains_iff by (cases "g (fst e)") auto

lemma entry_instruction_append_old:
  assumes "entry_ok n g uv e"
  shows "entry_instruction g (uv @ [(q, vs)]) e = entry_instruction g uv e"
proof (cases "g (fst e)")
  case (FieldInput ty name)
  then show ?thesis by (simp add: entry_instruction_def)
next
  case (FieldOperation fn inputs)
  with assms have "\<forall>f \<in> set inputs. contains uv (source_ptr f)" by (simp add: entry_ok_def)
  then have "map (\<lambda>f. the (get_field_variable g f (uv @ [(q, vs)]))) inputs =
             map (\<lambda>f. the (get_field_variable g f uv)) inputs"
    by (simp add: gfv_append_old)
  with FieldOperation show ?thesis by (simp add: entry_instruction_def)
qed

lemma build_invD:
  assumes "build_inv n g R s"
  shows "\<forall>f \<in> set (fields_to_visit s). valid_field n g f"
    and "distinct (map fst (unique_variables s))"
    and "concat (map snd (unique_variables s)) = [0 ..< length (variables (builder s))]"
    and "instructions (builder s) = map (entry_instruction g (unique_variables s)) (unique_variables s)"
    and "\<forall>e \<in> set (unique_variables s). entry_ok n g (unique_variables s) e"
    and "validate_instructions {} {} (instructions (builder s))"
    and "produced (instructions (builder s)) = set (concat (map snd (unique_variables s)))"
    and "source_ptr ` set (fields_to_visit s) \<union> fst ` set (unique_variables s)
           \<subseteq> reachable g (source_ptr ` set R)"
    and "\<forall>f \<in> set R. contains (unique_variables s) (source_ptr f) \<or> f \<in> set (fields_to_visit s)"
  using assms unfolding build_inv_def by blast+

lemma build_invI:
  assumes "\<forall>f \<in> set (fields_to_visit s). valid_field n g f"
    and "distinct (map fst (unique_variables s))"
    and "concat (map snd (unique_variables s)) = [0 ..< length (variables (builder s))]"
    and "instructions (builder s) = map (entry_instruction g (unique_variables s)) (unique_variables s)"
    and "\<forall>e \<in> set (unique_variables s). entry_ok n g (unique_variables s) e"
    and "validate_instructions {} {} (instructions (builder s))"
    and "produced (instructions (builder s)) = set (concat (map snd (unique_variables s)))"
    and "source_ptr ` set (fields_to_visit s) \<union> fst ` set (unique_variables s)
           \<subseteq> reachable g (source_ptr ` set R)"
    and "\<forall>f \<in> set R. contains (unique_variables s) (source_ptr f) \<or> f \<in> set (fields_to_visit s)"
  shows "build_inv n g R s"
  using assms unfolding build_inv_def by blast

lemma build_inv_append:
  assumes inv: "build_inv n g R s"
    and st: "fields_to_visit s \<noteq> []"
    and p: "p = source_ptr (hd (fields_to_visit s))" "\<not> contains (unique_variables s) p"
    and s1: "fields_to_visit s' = tl (fields_to_visit s)"
    and s2: "unique_variables s' = unique_variables s @ [(p, vs)]"
    and s3: "variables (builder s') = variables (builder s) @ new"
    and s4: "instructions (builder s') =
               instructions (builder s) @ [entry_instruction g (unique_variables s) (p, vs)]"
    and vs: "vs = [length (variables (builder s)) ..< length (variables (builder s)) + length new]"
    and ok: "entry_ok n g (unique_variables s) (p, vs)"
    and refs: "\<And>fn inputs f. g p = FieldOperation fn inputs \<Longrightarrow> f \<in> set inputs \<Longrightarrow>
                 \<exists>v. get_field_variable g f (unique_variables s) = Some v \<and>
                     v \<in> set (concat (map snd (unique_variables s)))"
  shows "build_inv n g R s'"
proof -
  let ?uv = "unique_variables s" and ?uv' = "unique_variables s'"
  let ?st = "fields_to_visit s"
  note i1 = build_invD(1) [OF inv] and i2 = build_invD(2) [OF inv] and i3 = build_invD(3) [OF inv]
    and i4 = build_invD(4) [OF inv] and i5 = build_invD(5) [OF inv] and i6 = build_invD(6) [OF inv]
    and i7 = build_invD(7) [OF inv] and i8 = build_invD(8) [OF inv] and i9 = build_invD(9) [OF inv]
  from p(2) have pnew: "p \<notin> fst ` set ?uv" by (simp add: contains_iff)
  have sub: "fst ` set ?uv \<subseteq> fst ` set ?uv'" by (auto simp: s2)
  from st obtain top rest where stk: "?st = top # rest" by (cases ?st) auto
  have c1: "\<forall>f \<in> set (fields_to_visit s'). valid_field n g f"
    using i1 by (simp add: s1 stk)
  have c2: "distinct (map fst ?uv')"
    using i2 pnew by (simp add: s2)
  have c3: "concat (map snd ?uv') = [0 ..< length (variables (builder s'))]"
  proof -
    have "[0 ..< length (variables (builder s)) + length new] =
          [0 ..< length (variables (builder s))] @ vs"
      unfolding vs by (rule upt_add_eq_append) simp
    with i3 show ?thesis by (simp add: s2 s3)
  qed
  have old: "\<forall>e \<in> set ?uv. entry_instruction g ?uv' e = entry_instruction g ?uv e"
    unfolding s2 using i5 by (blast intro: entry_instruction_append_old)
  have new: "entry_instruction g ?uv' (p, vs) = entry_instruction g ?uv (p, vs)"
    unfolding s2 using ok by (rule entry_instruction_append_old)
  have c4: "instructions (builder s') = map (entry_instruction g ?uv') ?uv'"
  proof -
    have "map (entry_instruction g ?uv') ?uv = map (entry_instruction g ?uv) ?uv"
      using old by simp
    then have "map (entry_instruction g ?uv') ?uv' =
               map (entry_instruction g ?uv) ?uv @ [entry_instruction g ?uv' (p, vs)]"
      by (simp add: s2)
    with new i4 s4 show ?thesis by simp
  qed
  have c5: "\<forall>e \<in> set ?uv'. entry_ok n g ?uv' e"
  proof
    fix e assume "e \<in> set ?uv'"
    then have "e \<in> set ?uv \<or> e = (p, vs)" by (auto simp: s2)
    with i5 ok have "entry_ok n g ?uv e" by blast
    then show "entry_ok n g ?uv' e" using sub by (rule entry_ok_mono)
  qed
  have c67: "validate_instructions {} {} (instructions (builder s')) \<and>
             produced (instructions (builder s')) = set (concat (map snd ?uv'))"
  proof (cases "g p")
    case (FieldInput ty name)
    with ok have "length vs = 1" by (simp add: entry_ok_def)
    then obtain v where v: "vs = [v]" by (cases vs) auto
    with FieldInput have "entry_instruction g ?uv (p, vs) = InputParameter v"
      by (simp add: entry_instruction_def)
    with i6 i7 v show ?thesis
      by (simp add: s4 s2 validate_instructions_append produced_append)
  next
    case (FieldOperation fn inputs)
    then have e: "entry_instruction g ?uv (p, vs) =
                   Call fn (map (\<lambda>f. the (get_field_variable g f ?uv)) inputs) vs"
      by (simp add: entry_instruction_def)
    have "set (map (\<lambda>f. the (get_field_variable g f ?uv)) inputs) \<subseteq> set (concat (map snd ?uv))"
    proof
      fix v assume "v \<in> set (map (\<lambda>f. the (get_field_variable g f ?uv)) inputs)"
      then obtain f where f: "f \<in> set inputs" "v = the (get_field_variable g f ?uv)" by auto
      from refs [OF FieldOperation f(1)] obtain v' where
        "get_field_variable g f ?uv = Some v'" "v' \<in> set (concat (map snd ?uv))" by blast
      with f(2) show "v \<in> set (concat (map snd ?uv))" by (simp del: set_concat)
    qed
    with i6 i7 e show ?thesis
      by (simp add: s4 s2 validate_instructions_append produced_append Un_commute)
  qed
  have ptop: "p = source_ptr top" using p(1) stk by simp
  have c8: "source_ptr ` set (fields_to_visit s') \<union> fst ` set ?uv'
              \<subseteq> reachable g (source_ptr ` set R)"
    using i8 by (auto simp: s1 s2 stk ptop)
  have c9: "\<forall>f \<in> set R. contains ?uv' (source_ptr f) \<or> f \<in> set (fields_to_visit s')"
  proof
    fix f assume "f \<in> set R"
    with i9 have "contains ?uv (source_ptr f) \<or> f \<in> set ?st" by simp
    then show "contains ?uv' (source_ptr f) \<or> f \<in> set (fields_to_visit s')"
      using sub by (auto simp: contains_iff s1 s2 stk ptop)
  qed
  from c67 have c6: "validate_instructions {} {} (instructions (builder s'))"
    and c7: "produced (instructions (builder s')) = set (concat (map snd ?uv'))"
    by (rule conjunct1, rule conjunct2)
  show ?thesis by (rule build_invI [OF c1 c2 c3 c4 c5 c6 c7 c8 c9])
qed

lemma build_inv_stack:
  assumes inv: "build_inv n g R s"
    and e1: "unique_variables s' = unique_variables s"
    and e2: "builder s' = builder s"
    and c1: "\<forall>f \<in> set (fields_to_visit s'). valid_field n g f"
    and c8: "source_ptr ` set (fields_to_visit s') \<subseteq> reachable g (source_ptr ` set R)"
    and c9: "\<forall>f \<in> set R. contains (unique_variables s) (source_ptr f) \<or> f \<in> set (fields_to_visit s')"
  shows "build_inv n g R s'"
proof (rule build_invI)
  note i = build_invD [OF inv]
  show "\<forall>f \<in> set (fields_to_visit s'). valid_field n g f" by fact
  show "distinct (map fst (unique_variables s'))" using i(2) by (simp only: e1)
  show "concat (map snd (unique_variables s')) = [0 ..< length (variables (builder s'))]"
    using i(3) by (simp only: e1 e2)
  show "instructions (builder s') = map (entry_instruction g (unique_variables s')) (unique_variables s')"
    using i(4) by (simp only: e1 e2)
  show "\<forall>e \<in> set (unique_variables s'). entry_ok n g (unique_variables s') e"
    using i(5) by (simp only: e1)
  show "validate_instructions {} {} (instructions (builder s'))" using i(6) by (simp only: e2)
  show "produced (instructions (builder s')) = set (concat (map snd (unique_variables s')))"
    using i(7) by (simp only: e1 e2)
  have "fst ` set (unique_variables s) \<subseteq> reachable g (source_ptr ` set R)" using i(8) by blast
  with c8 show "source_ptr ` set (fields_to_visit s') \<union> fst ` set (unique_variables s')
      \<subseteq> reachable g (source_ptr ` set R)"
    unfolding e1 by blast
  show "\<forall>f \<in> set R. contains (unique_variables s') (source_ptr f) \<or> f \<in> set (fields_to_visit s')"
    using c9 by (simp only: e1)
qed

lemma build_inv_pop:
  assumes inv: "build_inv n g R s" and st: "fields_to_visit s \<noteq> []"
    and c: "contains (unique_variables s) (source_ptr (hd (fields_to_visit s)))"
  shows "build_inv n g R (s\<lparr>fields_to_visit := tl (fields_to_visit s)\<rparr>)"
proof -
  from st obtain top rest where stk: "fields_to_visit s = top # rest"
    by (cases "fields_to_visit s") auto
  note i = build_invD [OF inv]
  have c1: "\<forall>f \<in> set rest. valid_field n g f" using i(1) unfolding stk by simp
  have c8: "source_ptr ` set rest \<subseteq> reachable g (source_ptr ` set R)"
    using i(8) unfolding stk by auto
  have c9: "\<forall>f \<in> set R. contains (unique_variables s) (source_ptr f) \<or> f \<in> set rest"
    using i(9) c unfolding stk by auto
  show ?thesis
    by (rule build_inv_stack [OF inv]) (simp_all add: stk c1 c8 c9)
qed

lemma build_inv_push:
  assumes ac: "acyclic_store n rank g" and inv: "build_inv n g R s" and st: "fields_to_visit s \<noteq> []"
    and op: "g (source_ptr (hd (fields_to_visit s))) = FieldOperation fn inputs"
    and f: "f \<in> set inputs"
  shows "build_inv n g R (s\<lparr>fields_to_visit := f # fields_to_visit s\<rparr>)"
proof -
  from st obtain top rest where stk: "fields_to_visit s = top # rest"
    by (cases "fields_to_visit s") auto
  note i = build_invD [OF inv]
  from i(1) have top: "valid_field n g top" unfolding stk by simp
  from i(8) have r: "source_ptr top \<in> reachable g (source_ptr ` set R)" unfolding stk by simp
  from top have "source_ptr top < n" by (simp add: valid_field_def)
  with ac op f stk have v: "valid_field n g f"
    using acyclic_storeD [of n rank g "source_ptr top" fn inputs f] by simp
  from r op f stk have rf: "source_ptr f \<in> reachable g (source_ptr ` set R)"
    by (auto intro: reachable.input)
  have c1: "\<forall>f' \<in> set (f # fields_to_visit s). valid_field n g f'" using i(1) v by simp
  have c8: "source_ptr ` set (f # fields_to_visit s) \<subseteq> reachable g (source_ptr ` set R)"
    using i(8) rf by auto
  have c9: "\<forall>f' \<in> set R. contains (unique_variables s) (source_ptr f') \<or> f' \<in> set (f # fields_to_visit s)"
    using i(9) by auto
  show ?thesis
  proof (rule build_inv_stack [OF inv])
    show "\<forall>f' \<in> set (fields_to_visit (s\<lparr>fields_to_visit := f # fields_to_visit s\<rparr>)). valid_field n g f'"
      using c1 by simp
    show "source_ptr ` set (fields_to_visit (s\<lparr>fields_to_visit := f # fields_to_visit s\<rparr>))
            \<subseteq> reachable g (source_ptr ` set R)"
      using c8 by simp
    show "\<forall>f' \<in> set R. contains (unique_variables s) (source_ptr f') \<or>
            f' \<in> set (fields_to_visit (s\<lparr>fields_to_visit := f # fields_to_visit s\<rparr>))"
      using c9 by simp
  qed simp_all
qed

lemma unmapped_count_append:
  assumes "p < n" "p \<notin> fst ` set (unique_variables s)"
    and "unique_variables s' = unique_variables s @ [(p, vs)]"
  shows "unmapped_count n s' < unmapped_count n s"
proof -
  have "{..<n} - fst ` set (unique_variables s') \<subset> {..<n} - fst ` set (unique_variables s)"
    using assms by auto
  then show ?thesis
    unfolding unmapped_count_def by (intro psubset_card_mono) auto
qed

lemma contained_entry:
  assumes "contains uv p"
  shows "\<exists>vs. (p, vs) \<in> set uv"
  using assms by (auto simp: contains_iff)

lemma build_inv_gfv:
  assumes inv: "build_inv n g R s" and v: "valid_field n g f"
    and c: "contains (unique_variables s) (source_ptr f)"
  shows "\<exists>v. get_field_variable g f (unique_variables s) = Some v \<and>
             v \<in> set (concat (map snd (unique_variables s)))"
proof -
  from c obtain vs where vs: "(source_ptr f, vs) \<in> set (unique_variables s)"
    using contained_entry by blast
  with build_invD(5) [OF inv] have "entry_ok n g (unique_variables s) (source_ptr f, vs)" by blast
  from gfv_defined [OF build_invD(2) [OF inv] vs this v]
  obtain w where w: "get_field_variable g f (unique_variables s) = Some w" "w \<in> set vs" by blast
  from vs w(2) have "w \<in> set (concat (map snd (unique_variables s)))"
    by force
  with w(1) show ?thesis by blast
qed

lemma visit_top_step:
  assumes ac: "acyclic_store n rank g" and inv: "build_inv n g R s" and st: "fields_to_visit s \<noteq> []"
  shows "\<exists>s'. visit_top g s = Inr s' \<and> build_inv n g R s' \<and>
              (s', s) \<in> measures [unmapped_count n, top_resolved, top_rank rank]"
proof -
  let ?uv = "unique_variables s"
  from st obtain top rest where stk: "fields_to_visit s = top # rest"
    by (cases "fields_to_visit s") auto
  note i = build_invD [OF inv]
  from i(1) have vtop: "valid_field n g top" unfolding stk by simp
  then have topn: "source_ptr top < n" by (simp add: valid_field_def)
  have hd: "hd (fields_to_visit s) = top" by (simp add: stk)
  show ?thesis
  proof (cases "contains ?uv (source_ptr top)")
    case True
    let ?s' = "s\<lparr>fields_to_visit := tl (fields_to_visit s)\<rparr>"
    have 1: "visit_top g s = Inr ?s'" using True by (simp add: visit_top_pop hd)
    have 2: "build_inv n g R ?s'" using True by (intro build_inv_pop [OF inv st]) (simp add: hd)
    have 3: "unmapped_count n ?s' = unmapped_count n s" by (simp add: unmapped_count_def)
    have "top_resolved ?s' < top_resolved s \<or>
          (top_resolved ?s' = top_resolved s \<and> top_rank rank ?s' < top_rank rank s)"
      using True by (auto simp: top_resolved_def top_rank_def stk)
    with 1 2 3 show ?thesis by auto
  next
    case notin: False
    then have pnew: "source_ptr top \<notin> fst ` set ?uv" by (simp add: contains_iff)
    show ?thesis
    proof (cases "g (source_ptr top)")
      case (FieldInput ty name)
      let ?nv = "length (variables (builder s))"
      let ?s' = "\<lparr>fields_to_visit = tl (fields_to_visit s),
          builder = \<lparr>variables = variables (builder s) @ [(ty, name)],
                     instructions = instructions (builder s) @ [InputParameter ?nv]\<rparr>,
          unique_variables = ?uv @ [(source_ptr (hd (fields_to_visit s)), [?nv])]\<rparr>"
      have 1: "visit_top g s = Inr ?s'"
        using notin FieldInput by (intro visit_top_input) (simp_all add: hd)
      have ei: "entry_instruction g ?uv (source_ptr top, [?nv]) = InputParameter ?nv"
        using FieldInput by (simp add: entry_instruction_def)
      have ok: "entry_ok n g ?uv (source_ptr top, [?nv])"
        using FieldInput topn by (simp add: entry_ok_def)
      have 2: "build_inv n g R ?s'"
        by (rule build_inv_append [OF inv st, where p = "source_ptr top" and vs = "[?nv]" and new = "[(ty, name)]"])
           (simp_all add: hd notin ei ok FieldInput)
      have 3: "unmapped_count n ?s' < unmapped_count n s"
        by (rule unmapped_count_append [OF topn pnew]) (simp add: hd)
      from 1 2 3 show ?thesis by auto
    next
      case (FieldOperation fn inputs)
      show ?thesis
      proof (cases "find (\<lambda>f. \<not> contains ?uv (source_ptr f)) inputs")
        case (Some f)
        then have f: "f \<in> set inputs" "\<not> contains ?uv (source_ptr f)"
          by (auto simp: find_Some_iff)
        let ?s' = "s\<lparr>fields_to_visit := f # fields_to_visit s\<rparr>"
        have 1: "visit_top g s = Inr ?s'"
          using notin FieldOperation Some by (intro visit_top_push) (simp_all add: hd)
        have 2: "build_inv n g R ?s'"
          using FieldOperation f(1) by (intro build_inv_push [OF ac inv st]) (simp_all add: hd)
        have 3: "unmapped_count n ?s' = unmapped_count n s" by (simp add: unmapped_count_def)
        from acyclic_storeD [OF ac topn FieldOperation f(1)]
        have "rank (source_ptr f) < rank (source_ptr top)" by simp
        with f(2) notin have "top_resolved ?s' = top_resolved s \<and> top_rank rank ?s' < top_rank rank s"
          by (simp add: top_resolved_def top_rank_def stk)
        with 1 2 3 show ?thesis by auto
      next
        case None
        then have allc: "\<forall>f \<in> set inputs. contains ?uv (source_ptr f)"
          by (auto simp: find_None_iff)
        have refs: "\<exists>v. get_field_variable g f ?uv = Some v \<and> v \<in> set (concat (map snd ?uv))"
          if "f \<in> set inputs" for f
        proof -
          from acyclic_storeD [OF ac topn FieldOperation that] have "valid_field n g f" by simp
          from build_inv_gfv [OF inv this] allc that show ?thesis by blast
        qed
        then have def: "\<forall>f \<in> set inputs. get_field_variable g f ?uv \<noteq> None" by fastforce
        let ?nv = "length (variables (builder s))"
        let ?outs = "[?nv ..< ?nv + length (fn_outputs fn)]"
        let ?ins = "map (\<lambda>f. the (get_field_variable g f ?uv)) inputs"
        let ?s' = "\<lparr>fields_to_visit = tl (fields_to_visit s),
          builder = \<lparr>variables = variables (builder s) @ map (\<lambda>ty. (ty, [])) (fn_outputs fn),
                     instructions = instructions (builder s) @ [Call fn ?ins ?outs]\<rparr>,
          unique_variables = ?uv @ [(source_ptr (hd (fields_to_visit s)), ?outs)]\<rparr>"
        have 1: "visit_top g s = Inr ?s'"
          using notin FieldOperation None def by (intro visit_top_call) (simp_all add: hd)
        have ei: "entry_instruction g ?uv (source_ptr top, ?outs) = Call fn ?ins ?outs"
          using FieldOperation by (simp add: entry_instruction_def)
        have ok: "entry_ok n g ?uv (source_ptr top, ?outs)"
          using FieldOperation topn allc by (simp add: entry_ok_def)
        have 2: "build_inv n g R ?s'"
        proof (rule build_inv_append [OF inv st, where p = "source_ptr top" and vs = ?outs
              and new = "map (\<lambda>ty. (ty, [])) (fn_outputs fn)"])
          show "\<exists>v. get_field_variable g f ?uv = Some v \<and> v \<in> set (concat (map snd ?uv))"
            if "g (source_ptr top) = FieldOperation fn' inputs'" "f \<in> set inputs'" for fn' inputs' f
            using that FieldOperation refs by simp
        qed (simp_all add: hd notin ei ok)
        have 3: "unmapped_count n ?s' < unmapped_count n s"
          by (rule unmapped_count_append [OF topn pnew]) (simp add: hd)
        from 1 2 3 show ?thesis by auto
      qed
    qed
  qed
qed

lemma visit_fields_total:
  assumes ac: "acyclic_store n rank g" and inv: "build_inv n g R s"
  shows "\<exists>s'. visit_fields g s = Some (Inr s') \<and> build_inv n g R s' \<and> fields_to_visit s' = []"
  using inv
proof (induction s rule: wf_induct_rule [OF wf_measures [of "[unmapped_count n, top_resolved, top_rank rank]"]])
  case (1 s)
  show ?case
  proof (cases "fields_to_visit s = []")
    case True
    with "1.prems" show ?thesis by (subst visit_fields.simps) simp
  next
    case False
    from visit_top_step [OF ac "1.prems" False] obtain s1 where
      s1: "visit_top g s = Inr s1" "build_inv n g R s1"
          "(s1, s) \<in> measures [unmapped_count n, top_resolved, top_rank rank]" by blast
    from "1.IH" [OF s1(3) s1(2)] obtain s' where
      "visit_fields g s1 = Some (Inr s')" "build_inv n g R s'" "fields_to_visit s' = []" by blast
    with False s1(1) show ?thesis by (subst visit_fields.simps) simp
  qed
qed

lemma build_inv_initial:
  assumes "\<forall>f \<in> set R. valid_field n g f"
  shows "build_inv n g R \<lparr>fields_to_visit = rev R, builder = empty_procedure, unique_variables = []\<rparr>"
  using assms by (intro build_invI) (auto simp: empty_procedure_def intro: reachable.root)

lemma build_inv_final_keys:
  assumes inv: "build_inv n g R s" and e: "fields_to_visit s = []"
  shows "fst ` set (unique_variables s) = reachable g (source_ptr ` set R)"
proof
  show "fst ` set (unique_variables s) \<subseteq> reachable g (source_ptr ` set R)"
    using build_invD(8) [OF inv] by blast
  show "reachable g (source_ptr ` set R) \<subseteq> fst ` set (unique_variables s)"
  proof
    fix p assume "p \<in> reachable g (source_ptr ` set R)"
    then show "p \<in> fst ` set (unique_variables s)"
    proof induction
      case (root p)
      with build_invD(9) [OF inv] e show ?case by (auto simp: contains_iff)
    next
      case (input p fn inputs f)
      from input.IH obtain vs where vs: "(p, vs) \<in> set (unique_variables s)" by auto
      with build_invD(5) [OF inv] have "entry_ok n g (unique_variables s) (p, vs)" by blast
      with input.hyps(2,3) have "contains (unique_variables s) (source_ptr f)"
        by (simp add: entry_ok_def)
      then show ?case by (simp add: contains_iff)
    qed
  qed
qed

lemma add_unique_variables_total:
  assumes ac: "acyclic_store n rank g" and R: "\<forall>f \<in> set R. valid_field n g f"
  shows "\<exists>p uv. add_unique_variables g R empty_procedure [] = Some (Inr (p, uv)) \<and>
           build_inv n g R \<lparr>fields_to_visit = [], builder = p, unique_variables = uv\<rparr>"
proof -
  from visit_fields_total [OF ac build_inv_initial [OF R]] obtain s' where
    s': "visit_fields g \<lparr>fields_to_visit = rev R, builder = empty_procedure, unique_variables = []\<rparr>
           = Some (Inr s')" "build_inv n g R s'" "fields_to_visit s' = []" by blast
  from s'(3) have "s' = \<lparr>fields_to_visit = [], builder = builder s', unique_variables = unique_variables s'\<rparr>"
    by (cases s') simp
  with s'(2) have "build_inv n g R \<lparr>fields_to_visit = [], builder = builder s', unique_variables = unique_variables s'\<rparr>"
    by simp
  with s'(1) show ?thesis by (simp add: add_unique_variables_def)
qed

subsection \<open>The contract check of evaluate_fields\<close>

text \<open>
  C7, as stated, fails: the only check of the two lengths is a \<open>BLI_assert\<close>, and in a
  build without assertions a call with one requested bare input and two buffers runs
  the loop, writes the first buffer and returns normally.
\<close>

theorem evaluate_fields_length_mismatch_unchecked:
  "length [GField 0 0] \<noteq> length [[0], [0 :: int]] \<and>
   evaluate_fields False example_semantics example_data example_store [GField 0 0] [0] [[0], [0]] =
     Some \<lparr>status = None, buffers = [[5], [0]], varray_calls = [0], built = None\<rparr>"
  by code_simp

text \<open>
  C7, amended. In a build with assertions active, whenever the number of requested
  fields differs from the number of output buffers, \<open>evaluate_fields\<close> fails at once:
  the assertion is reported, every output buffer still has its initial content, no
  input data was pulled and no procedure was built.
\<close>

theorem evaluate_fields_length_mismatch:
  assumes "length requested \<noteq> length outputs"
  shows "evaluate_fields True sem get_varray g requested msk outputs =
           Some \<lparr>status = Some AssertionFailed, buffers = outputs, varray_calls = [], built = None\<rparr>"
  using assms by (simp add: evaluate_fields_def)

theorem evaluate_fields_length_mismatch_witness:
  "length [GField 0 0, GField 2 0] \<noteq> length [[0::int, 0]] \<and>
   evaluate_fields True example_semantics example_data example_store [GField 0 0, GField 2 0] [0, 1] [[0, 0]] =
     Some \<lparr>status = Some AssertionFailed, buffers = [[0, 0]], varray_calls = [], built = None\<rparr>"
proof -
  have h: "length [GField 0 0, GField 2 0] \<noteq> length [[0::int, 0]]" by simp
  show ?thesis using h evaluate_fields_length_mismatch [OF h] by simp
qed

subsection \<open>The worklist of add_unique_variables\<close>

lemma contains_append_new: "contains (uv @ [(p, vs)]) p"
  by (simp add: contains_iff)

lemma visit_top_cases:
  assumes "visit_top g s = Inr s'"
  shows "(\<exists>f. fields_to_visit s' = f # fields_to_visit s \<and>
              unique_variables s' = unique_variables s \<and> builder s' = builder s) \<or>
         (fields_to_visit s' = tl (fields_to_visit s) \<and>
          contains (unique_variables s') (source_ptr (hd (fields_to_visit s))))"
proof (cases "contains (unique_variables s) (source_ptr (hd (fields_to_visit s)))")
  case True
  with assms show ?thesis by (auto simp: visit_top_def)
next
  case False
  show ?thesis
  proof (cases "g (source_ptr (hd (fields_to_visit s)))")
    case (FieldInput ty name)
    from visit_top_input [where s = s and g = g, OF False FieldInput] assms show ?thesis
      by (auto simp: contains_append_new)
  next
    case (FieldOperation fn inputs)
    with assms False show ?thesis
      by (auto simp: visit_top_def is_input_def add_variables_for_operation_def add_call_def
          lookup_or_add_append_def contains_append_new Let_def split: option.splits)
  qed
qed

lemma visit_top_keeps_entries:
  assumes "visit_top g s = Inr s'" and "contains (unique_variables s) p"
  shows "map_of (unique_variables s') p = map_of (unique_variables s) p"
proof (cases "contains (unique_variables s) (source_ptr (hd (fields_to_visit s)))")
  case True
  with assms show ?thesis by (auto simp: visit_top_def)
next
  case False
  from assms(2) have p: "p \<in> fst ` set (unique_variables s)" by (simp add: contains_iff)
  show ?thesis
  proof (cases "g (source_ptr (hd (fields_to_visit s)))")
    case (FieldInput ty name)
    from visit_top_input [where s = s and g = g, OF False FieldInput] assms(1) p show ?thesis
      by (auto simp: map_of_append_old simp del: map_of_append)
  next
    case (FieldOperation fn inputs)
    with assms(1) False have "unique_variables s' = unique_variables s \<or>
        (\<exists>q vs. unique_variables s' = unique_variables s @ [(q, vs)])"
      by (auto simp: visit_top_def is_input_def add_variables_for_operation_def add_call_def
          lookup_or_add_append_def Let_def split: option.splits)
    with p show ?thesis using map_of_append_old by metis
  qed
qed

lemma visit_top_blocked:
  assumes nc: "\<not> contains (unique_variables s) (source_ptr (hd (fields_to_visit s)))"
    and op: "g (source_ptr (hd (fields_to_visit s))) = FieldOperation fn inputs"
    and i: "i < length inputs" "\<not> contains (unique_variables s) (source_ptr (inputs ! i))"
    and first: "\<forall>j<i. contains (unique_variables s) (source_ptr (inputs ! j))"
  shows "visit_top g s = Inr (s\<lparr>fields_to_visit := inputs ! i # fields_to_visit s\<rparr>)"
proof -
  have "find (\<lambda>f. \<not> contains (unique_variables s) (source_ptr f)) inputs = Some (inputs ! i)"
    unfolding find_Some_iff using i first by auto
  from visit_top_push [where s = s and g = g, OF nc op this] show ?thesis .
qed

text \<open>
  C6. For a finite acyclic field graph (the sources at the first \<open>n\<close> addresses, with
  a rank that decreases from every operation to its inputs) and valid requested fields,
  the worklist of \<open>add_unique_variables\<close> terminates without failure. Moreover, in
  every state of the worklist with a non-empty stack: an operation on top whose inputs
  are not all resolved stays on the stack, its first unresolved input is pushed above
  it and the procedure and the map stay as they are; every
  step either pushes or pops the top field, and the top field is popped only when its
  source has a map entry, so the operation below is looked at again only after the
  dependency pushed above it is resolved; a field whose source has a map entry is
  discarded without touching the procedure or the map, and no step changes an
  existing map entry.
\<close>

theorem add_unique_variables_terminates:
  assumes "acyclic_store n rank g" and "\<forall>f \<in> set requested. valid_field n g f"
  shows "(\<exists>p uv. add_unique_variables g requested empty_procedure [] = Some (Inr (p, uv))) \<and>
    (\<forall>s fn inputs i.
        fields_to_visit s \<noteq> [] \<and>
        \<not> contains (unique_variables s) (source_ptr (hd (fields_to_visit s))) \<and>
        g (source_ptr (hd (fields_to_visit s))) = FieldOperation fn inputs \<and>
        i < length inputs \<and> \<not> contains (unique_variables s) (source_ptr (inputs ! i)) \<and>
        (\<forall>j<i. contains (unique_variables s) (source_ptr (inputs ! j))) \<longrightarrow>
        visit_top g s = Inr (s\<lparr>fields_to_visit := inputs ! i # fields_to_visit s\<rparr>)) \<and>
    (\<forall>s s'. fields_to_visit s \<noteq> [] \<and> visit_top g s = Inr s' \<longrightarrow>
        (\<exists>f. fields_to_visit s' = f # fields_to_visit s \<and>
             unique_variables s' = unique_variables s \<and> builder s' = builder s) \<or>
        (fields_to_visit s' = tl (fields_to_visit s) \<and>
         contains (unique_variables s') (source_ptr (hd (fields_to_visit s))))) \<and>
    (\<forall>s. fields_to_visit s \<noteq> [] \<and>
         contains (unique_variables s) (source_ptr (hd (fields_to_visit s))) \<longrightarrow>
        visit_top g s = Inr (s\<lparr>fields_to_visit := tl (fields_to_visit s)\<rparr>)) \<and>
    (\<forall>s s' p. fields_to_visit s \<noteq> [] \<and> visit_top g s = Inr s' \<and> contains (unique_variables s) p \<longrightarrow>
        map_of (unique_variables s') p = map_of (unique_variables s) p)"
proof (intro conjI allI impI)
  from add_unique_variables_total [OF assms]
  show "\<exists>p uv. add_unique_variables g requested empty_procedure [] = Some (Inr (p, uv))" by blast
next
  fix s :: build_state and fn inputs i
  assume "fields_to_visit s \<noteq> [] \<and>
        \<not> contains (unique_variables s) (source_ptr (hd (fields_to_visit s))) \<and>
        g (source_ptr (hd (fields_to_visit s))) = FieldOperation fn inputs \<and>
        i < length inputs \<and> \<not> contains (unique_variables s) (source_ptr (inputs ! i)) \<and>
        (\<forall>j<i. contains (unique_variables s) (source_ptr (inputs ! j)))"
  then show "visit_top g s = Inr (s\<lparr>fields_to_visit := inputs ! i # fields_to_visit s\<rparr>)"
    by (intro visit_top_blocked) blast+
next
  fix s s' :: build_state assume "fields_to_visit s \<noteq> [] \<and> visit_top g s = Inr s'"
  then have "visit_top g s = Inr s'" by simp
  then show "(\<exists>f. fields_to_visit s' = f # fields_to_visit s \<and>
             unique_variables s' = unique_variables s \<and> builder s' = builder s) \<or>
        (fields_to_visit s' = tl (fields_to_visit s) \<and>
         contains (unique_variables s') (source_ptr (hd (fields_to_visit s))))"
    by (rule visit_top_cases)
next
  fix s :: build_state
  assume "fields_to_visit s \<noteq> [] \<and>
         contains (unique_variables s) (source_ptr (hd (fields_to_visit s)))"
  then have "contains (unique_variables s) (source_ptr (hd (fields_to_visit s)))" by simp
  then show "visit_top g s = Inr (s\<lparr>fields_to_visit := tl (fields_to_visit s)\<rparr>)"
    by (rule visit_top_pop)
next
  fix s s' :: build_state and p
  assume "fields_to_visit s \<noteq> [] \<and> visit_top g s = Inr s' \<and> contains (unique_variables s) p"
  then show "map_of (unique_variables s') p = map_of (unique_variables s) p"
    using visit_top_keeps_entries by blast
qed

theorem add_unique_variables_terminates_witness:
  "acyclic_store 4 id example_store \<and>
   list_all (valid_field 4 example_store) [GField 3 1, GField 2 0] \<and>
   (\<exists>p uv. add_unique_variables example_store [GField 3 1, GField 2 0] empty_procedure []
              = Some (Inr (p, uv)))"
proof -
  have h1: "acyclic_store 4 id example_store" by code_simp
  have h2: "\<forall>f \<in> set [GField 3 1, GField 2 0]. valid_field 4 example_store f"
    by (simp add: valid_field_def example_store_def)
  from add_unique_variables_terminates [OF h1 h2] h1 h2 show ?thesis by simp
qed

subsection \<open>Destructs, outputs and validation\<close>

lemma output_variables_Inr:
  assumes "\<forall>f \<in> set fs. \<not> is_input g f \<and> get_field_variable g f uv \<noteq> None"
  shows "output_variables assertions g fs uv acc = Inr (acc \<union> set (requested_variables g uv fs))"
  using assms by (induction fs arbitrary: acc) (auto simp: requested_variables_def)

lemma fold_add_destruct:
  "fold (\<lambda>variable b. if variable \<in> outs then b else add_destruct variable b) vs p =
     p\<lparr>instructions := instructions p @ map Destruct (filter (\<lambda>v. v \<notin> outs) vs)\<rparr>"
  by (induction vs arbitrary: p) (auto simp: add_destruct_def)

lemma add_output_parameters_Inr:
  assumes "\<forall>f \<in> set fs. get_field_variable g f uv \<noteq> None"
  shows "add_output_parameters g fs uv p =
           Inr (p\<lparr>instructions := instructions p @ map OutputParameter (requested_variables g uv fs)\<rparr>)"
  using assms
  by (induction fs arbitrary: p) (auto simp: requested_variables_def add_output_parameter_def)

lemma validate_instructions_destructs: "validate_instructions P A (map Destruct vs)"
  by (induction vs) auto

lemma validate_instructions_outputs:
  "validate_instructions P A (map OutputParameter vs) = (set vs \<subseteq> P \<union> A)"
  by (induction vs) auto

lemma produced_destructs: "produced (map Destruct vs) = {}"
  by (induction vs) auto

lemma requested_variables_produced:
  assumes inv: "build_inv n g R s" and e: "fields_to_visit s = []"
    and R: "\<forall>f \<in> set R. valid_field n g f"
  shows "(\<forall>f \<in> set R. get_field_variable g f (unique_variables s) \<noteq> None) \<and>
         set (requested_variables g (unique_variables s) R) \<subseteq> set (concat (map snd (unique_variables s)))"
proof -
  have *: "\<exists>v. get_field_variable g f (unique_variables s) = Some v \<and>
             v \<in> set (concat (map snd (unique_variables s)))" if "f \<in> set R" for f
  proof -
    from build_invD(9) [OF inv] e that have "contains (unique_variables s) (source_ptr f)" by auto
    with that R show ?thesis by (intro build_inv_gfv [OF inv]) auto
  qed
  show ?thesis
  proof
    show "\<forall>f \<in> set R. get_field_variable g f (unique_variables s) \<noteq> None"
      using * by fastforce
    show "set (requested_variables g (unique_variables s) R)
            \<subseteq> set (concat (map snd (unique_variables s)))"
    proof
      fix v assume "v \<in> set (requested_variables g (unique_variables s) R)"
      then obtain f where f: "f \<in> set R" "v = the (get_field_variable g f (unique_variables s))"
        unfolding requested_variables_def by auto
      from * [OF f(1)] obtain w where "get_field_variable g f (unique_variables s) = Some w"
        "w \<in> set (concat (map snd (unique_variables s)))" by blast
      with f(2) show "v \<in> set (concat (map snd (unique_variables s)))" by (simp del: set_concat)
    qed
  qed
qed

lemma built_instructions_valid:
  assumes inv: "build_inv n g R s" and e: "fields_to_visit s = []"
    and R: "\<forall>f \<in> set R. valid_field n g f"
  shows "validate_instructions P {} (built_instructions g (unique_variables s) R)"
proof -
  let ?uv = "unique_variables s"
  note i = build_invD [OF inv]
  from i(6) have 1: "validate_instructions P {} (map (entry_instruction g ?uv) ?uv)"
    unfolding i(4) by (rule validate_instructions_mono) auto
  from i(7) have 2: "produced (map (entry_instruction g ?uv) ?uv) = set (concat (map snd ?uv))"
    unfolding i(4) .
  from requested_variables_produced [OF inv e R]
  have 3: "set (requested_variables g ?uv R) \<subseteq> set (concat (map snd ?uv))" by blast
  show ?thesis
    unfolding built_instructions_def validate_instructions_append
    using 1 3 by (simp add: 2 validate_instructions_destructs validate_instructions_outputs
        produced_destructs le_supI2 del: set_concat)
qed

lemma build_procedure_total:
  assumes ac: "acyclic_store n rank g" and R: "\<forall>f \<in> set R. valid_field n g f"
    and ni: "\<forall>f \<in> set R. \<not> is_input g f"
  shows "\<exists>p1 uv. add_unique_variables g R empty_procedure [] = Some (Inr (p1, uv)) \<and>
           build_inv n g R \<lparr>fields_to_visit = [], builder = p1, unique_variables = uv\<rparr> \<and>
           build_procedure assertions g R empty_procedure [] =
             Some (Inr (p1\<lparr>instructions := built_instructions g uv R\<rparr>, uv))"
proof -
  from add_unique_variables_total [OF ac R] obtain p1 uv where
    a: "add_unique_variables g R empty_procedure [] = Some (Inr (p1, uv))"
    and inv: "build_inv n g R \<lparr>fields_to_visit = [], builder = p1, unique_variables = uv\<rparr>"
    by blast
  let ?s = "\<lparr>fields_to_visit = [], builder = p1, unique_variables = uv\<rparr>"
  from requested_variables_produced [OF inv _ R]
  have def: "\<forall>f \<in> set R. get_field_variable g f uv \<noteq> None" by simp
  let ?outs = "requested_variables g uv R"
  have i4: "instructions p1 = map (entry_instruction g uv) uv"
    using build_invD(4) [OF inv] by simp
  have d: "add_destructs assertions g R p1 uv =
        Inr (p1\<lparr>instructions := instructions p1 @
               map Destruct (filter (\<lambda>v. v \<notin> set ?outs) (concat (map snd uv)))\<rparr>)"
    using ni def by (simp add: add_destructs_def output_variables_Inr fold_add_destruct)
  have o: "add_output_parameters g R uv
        (add_return (p1\<lparr>instructions := instructions p1 @
               map Destruct (filter (\<lambda>v. v \<notin> set ?outs) (concat (map snd uv)))\<rparr>)) =
        Inr (p1\<lparr>instructions := built_instructions g uv R\<rparr>)"
    using def by (simp add: add_output_parameters_Inr add_return_def built_instructions_def i4)
  have v: "validate (p1\<lparr>instructions := built_instructions g uv R\<rparr>)"
    using built_instructions_valid [OF inv _ R] by (simp add: validate_def)
  from a d o v have "build_procedure assertions g R empty_procedure [] =
             Some (Inr (p1\<lparr>instructions := built_instructions g uv R\<rparr>, uv))"
    by (simp add: build_procedure_def)
  with a inv show ?thesis by blast
qed

lemma validate_instructions_call:
  assumes "validate_instructions P A xs" and "k < length xs" and "xs ! k = Call fn ins outs"
  shows "set ins \<subseteq> P \<union> A \<union> produced (take k xs)"
proof -
  from assms(2) have "xs = take k xs @ xs ! k # drop (Suc k) xs"
    by (rule id_take_nth_drop)
  with assms(3) have "xs = take k xs @ Call fn ins outs # drop (Suc k) xs"
    by simp
  with assms(1) have "validate_instructions P A (take k xs @ Call fn ins outs # drop (Suc k) xs)"
    by metis
  then show ?thesis by (auto simp: validate_instructions_append)
qed

text \<open>
  C5. For a finite acyclic field graph and valid requested fields rooted at operations
  (the only ones \<open>evaluate_fields\<close> passes on), \<open>build_procedure\<close> terminates and its
  closing validation assertion holds: the procedure it returns passes structural
  validation, and every variable a call instruction reads was produced (as a declared
  input parameter or as a call output) by a strictly earlier instruction.
\<close>

theorem build_procedure_validates:
  assumes "acyclic_store n rank g" and "\<forall>f \<in> set requested. valid_field n g f"
    and "\<forall>f \<in> set requested. \<not> is_input g f"
  shows "\<exists>p uv. build_procedure assertions g requested empty_procedure [] = Some (Inr (p, uv)) \<and>
           validate p \<and>
           (\<forall>k fn ins outs. k < length (instructions p) \<and> instructions p ! k = Call fn ins outs
               \<longrightarrow> set ins \<subseteq> produced (take k (instructions p)))"
proof -
  from build_procedure_total [OF assms] obtain p1 uv where
    inv: "build_inv n g requested \<lparr>fields_to_visit = [], builder = p1, unique_variables = uv\<rparr>"
    and b: "build_procedure assertions g requested empty_procedure [] =
             Some (Inr (p1\<lparr>instructions := built_instructions g uv requested\<rparr>, uv))"
    by blast
  let ?p = "p1\<lparr>instructions := built_instructions g uv requested\<rparr>"
  have v: "validate_instructions P {} (instructions ?p)" for P
    using built_instructions_valid [OF inv _ assms(2)] by simp
  then have 1: "validate ?p" by (simp add: validate_def)
  have 2: "set ins \<subseteq> produced (take k (instructions ?p))"
    if "k < length (instructions ?p)" "instructions ?p ! k = Call fn ins outs" for k fn ins outs
    using validate_instructions_call [OF v [of "{}"] that] by simp
  from b 1 2 show ?thesis by blast
qed

theorem build_procedure_validates_witness:
  "acyclic_store 4 id example_store \<and>
   list_all (valid_field 4 example_store) [GField 3 1, GField 2 0] \<and>
   list_all (\<lambda>f. \<not> is_input example_store f) [GField 3 1, GField 2 0] \<and>
   (\<exists>p uv. build_procedure True example_store [GField 3 1, GField 2 0] empty_procedure [] = Some (Inr (p, uv)) \<and>
      validate p)"
proof -
  have h1: "acyclic_store 4 id example_store" by code_simp
  have h2: "\<forall>f \<in> set [GField 3 1, GField 2 0]. valid_field 4 example_store f"
    by (simp add: valid_field_def example_store_def)
  have h3: "\<forall>f \<in> set [GField 3 1, GField 2 0]. \<not> is_input example_store f"
    by (simp add: is_input_def example_store_def)
  from build_procedure_validates [OF h1 h2 h3, where assertions = True] h1 h2 h3 show ?thesis by auto
qed

subsection \<open>Destruct coverage\<close>

lemma entry_instruction_kind:
  "(\<exists>v. entry_instruction g uv e = InputParameter v) \<or> (\<exists>fn ins outs. entry_instruction g uv e = Call fn ins outs)"
  by (cases "g (fst e)") (simp_all add: entry_instruction_def)

lemma entry_instructions_no_release:
  "Destruct v \<notin> set (map (entry_instruction g uv) xs)"
  "OutputParameter v \<notin> set (map (entry_instruction g uv) xs)"
  "Return \<notin> set (map (entry_instruction g uv) xs)"
  using entry_instruction_kind [of g uv] by (auto, (metis instruction.distinct)+)

lemma count_list_destructs:
  "count_list (map Destruct vs) (Destruct v) = count_list vs v"
  by (induction vs) auto

lemma count_list_distinct:
  "distinct vs \<Longrightarrow> count_list vs v = (if v \<in> set vs then 1 else 0)"
  by (induction vs) auto

lemma count_list_notin: "x \<notin> set xs \<Longrightarrow> count_list xs x = 0"
  by (induction xs) auto

lemma built_instructions_release:
  assumes d: "distinct (concat (map snd uv))" and v: "v \<in> set (concat (map snd uv))"
  shows "(OutputParameter v \<in> set (built_instructions g uv R)) = (v \<in> set (requested_variables g uv R))"
    and "count_list (built_instructions g uv R) (Destruct v) =
           (if v \<in> set (requested_variables g uv R) then 0 else 1)"
proof -
  let ?outs = "requested_variables g uv R"
  let ?ds = "filter (\<lambda>v. v \<notin> set ?outs) (concat (map snd uv))"
  show "(OutputParameter v \<in> set (built_instructions g uv R)) = (v \<in> set ?outs)"
    using entry_instructions_no_release(2) [of v g uv uv]
    by (auto simp: built_instructions_def simp del: set_concat)
  have 1: "count_list (map (entry_instruction g uv) uv) (Destruct v) = 0"
    using entry_instructions_no_release(1) [of v g uv uv] by (rule count_list_notin)
  have 2: "count_list (map OutputParameter ?outs) (Destruct v) = 0"
    by (rule count_list_notin) auto
  from d have "distinct ?ds" by simp
  then have 3: "count_list (map Destruct ?ds) (Destruct v) = (if v \<in> set ?outs then 0 else 1)"
    using v by (simp add: count_list_destructs count_list_distinct del: set_concat)
  show "count_list (built_instructions g uv R) (Destruct v) = (if v \<in> set ?outs then 0 else 1)"
    unfolding built_instructions_def using 1 2 3 by (simp del: set_concat)
qed

text \<open>
  C3. For a finite acyclic field graph and valid requested fields rooted at
  operations, \<open>build_procedure\<close> returns a procedure in which every variable recorded
  in the unique-variable map is either named by an output-parameter declaration and
  destructed nowhere, or named by no output-parameter declaration and destructed
  exactly once; the procedure has exactly one return, and no destruct comes after it.
\<close>

theorem build_procedure_destruct_coverage:
  assumes "acyclic_store n rank g" and "\<forall>f \<in> set requested. valid_field n g f"
    and "\<forall>f \<in> set requested. \<not> is_input g f"
  shows "\<exists>p uv. build_procedure assertions g requested empty_procedure [] = Some (Inr (p, uv)) \<and>
           (\<forall>v \<in> set (concat (map snd uv)).
               count_list (instructions p) (Destruct v) =
                 (if OutputParameter v \<in> set (instructions p) then 0 else 1)) \<and>
           (\<exists>before after. instructions p = before @ Return # after \<and>
               Return \<notin> set before \<and> Return \<notin> set after \<and> (\<forall>v. Destruct v \<notin> set after))"
proof -
  from build_procedure_total [OF assms] obtain p1 uv where
    inv: "build_inv n g requested \<lparr>fields_to_visit = [], builder = p1, unique_variables = uv\<rparr>"
    and b: "build_procedure assertions g requested empty_procedure [] =
             Some (Inr (p1\<lparr>instructions := built_instructions g uv requested\<rparr>, uv))"
    by blast
  let ?p = "p1\<lparr>instructions := built_instructions g uv requested\<rparr>"
  let ?outs = "requested_variables g uv requested"
  from build_invD(3) [OF inv] have d: "distinct (concat (map snd uv))" by simp
  have 1: "\<forall>v \<in> set (concat (map snd uv)).
               count_list (instructions ?p) (Destruct v) =
                 (if OutputParameter v \<in> set (instructions ?p) then 0 else 1)"
    using built_instructions_release [OF d] by simp
  let ?before = "map (entry_instruction g uv) uv @
     map Destruct (filter (\<lambda>v. v \<notin> set ?outs) (concat (map snd uv)))"
  let ?after = "map OutputParameter ?outs"
  have 2: "instructions ?p = ?before @ Return # ?after"
    by (simp add: built_instructions_def)
  have 3: "Return \<notin> set ?before"
    using entry_instructions_no_release(3) [of g uv uv] by (auto simp del: set_concat)
  have 4: "Return \<notin> set ?after" "\<forall>v. Destruct v \<notin> set ?after" by auto
  from b 1 2 3 4 show ?thesis by blast
qed

theorem build_procedure_destruct_coverage_witness:
  "acyclic_store 4 id example_store \<and>
   list_all (valid_field 4 example_store) [GField 3 0] \<and>
   list_all (\<lambda>f. \<not> is_input example_store f) [GField 3 0] \<and>
   (\<exists>p uv. build_procedure True example_store [GField 3 0] empty_procedure [] = Some (Inr (p, uv)) \<and>
      (\<forall>v \<in> set (concat (map snd uv)).
               count_list (instructions p) (Destruct v) =
                 (if OutputParameter v \<in> set (instructions p) then 0 else 1)))"
proof -
  have h1: "acyclic_store 4 id example_store" by code_simp
  have h2: "\<forall>f \<in> set [GField 3 0]. valid_field 4 example_store f"
    by (simp add: valid_field_def example_store_def)
  have h3: "\<forall>f \<in> set [GField 3 0]. \<not> is_input example_store f"
    by (simp add: is_input_def example_store_def)
  from build_procedure_destruct_coverage [OF h1 h2 h3, where assertions = True] obtain p uv where
    "build_procedure True example_store [GField 3 0] empty_procedure [] = Some (Inr (p, uv))"
    "\<forall>v \<in> set (concat (map snd uv)).
               count_list (instructions p) (Destruct v) =
                 (if OutputParameter v \<in> set (instructions p) then 0 else 1)" by blast
  then have "\<exists>p uv. build_procedure True example_store [GField 3 0] empty_procedure [] = Some (Inr (p, uv)) \<and>
      (\<forall>v \<in> set (concat (map snd uv)).
               count_list (instructions p) (Destruct v) =
                 (if OutputParameter v \<in> set (instructions p) then 0 else 1))" by blast
  with h1 h2 h3 show ?thesis by simp
qed

subsection \<open>What the unique-variable map records\<close>

lemma get_field_variable_input:
  assumes "distinct (map fst uv)" "(source_ptr field, [v]) \<in> set uv"
    and "g (source_ptr field) = FieldInput ty name"
  shows "get_field_variable g field uv = Some v"
proof -
  from assms(1,2) have "map_of uv (source_ptr field) = Some [v]" by simp
  with assms(3) show ?thesis by (simp add: get_field_variable_def is_input_def)
qed

lemma get_field_variable_operation:
  assumes "distinct (map fst uv)" "(source_ptr field, vs) \<in> set uv"
    and "g (source_ptr field) = FieldOperation fn inputs"
    and "source_output_index field < length vs"
  shows "get_field_variable g field uv = Some (vs ! source_output_index field)"
proof -
  from assms(1,2) have "map_of uv (source_ptr field) = Some vs" by simp
  with assms(3,4) show ?thesis by (simp add: get_field_variable_def is_input_def)
qed

lemma entry_instruction_built:
  "e \<in> set uv \<Longrightarrow> entry_instruction g uv e \<in> set (built_instructions g uv R)"
  by (simp add: built_instructions_def del: set_concat)

text \<open>
  C10. After a build (finite acyclic field graph, valid requested fields rooted at
  operations) the unique-variable map has exactly one entry for every source reachable
  from the requested fields, and no other. Every entry records the following. For an
  operation: the list of output variables of one call instruction of the procedure for
  that operation's function, in the order of the call's outputs, of length the
  function's output arity; resolving a field rooted at the operation gives the variable
  at the field's output index in that list. For an input: a single variable, declared
  by an input-parameter instruction; resolving any field rooted at the input gives that
  variable. In particular every requested field resolves to the variable at its output
  index among the outputs of the call of its operation.
\<close>

theorem unique_variables_record_call_outputs:
  assumes "acyclic_store n rank g" and "\<forall>f \<in> set requested. valid_field n g f"
    and "\<forall>f \<in> set requested. \<not> is_input g f"
  shows "\<exists>p uv. build_procedure assertions g requested empty_procedure [] = Some (Inr (p, uv)) \<and>
           distinct (map fst uv) \<and>
           fst ` set uv = reachable g (source_ptr ` set requested) \<and>
           (\<forall>f \<in> set requested.
              \<exists>fn inputs ins outs.
                g (source_ptr f) = FieldOperation fn inputs \<and>
                map_of uv (source_ptr f) = Some outs \<and>
                length outs = length (fn_outputs fn) \<and>
                Call fn ins outs \<in> set (instructions p) \<and>
                get_field_variable g f uv = Some (outs ! source_output_index f)) \<and>
           (\<forall>e \<in> set uv.
              case g (fst e) of
                FieldInput _ _ \<Rightarrow>
                  (\<exists>v. snd e = [v] \<and> InputParameter v \<in> set (instructions p) \<and>
                       (\<forall>field. source_ptr field = fst e \<longrightarrow> get_field_variable g field uv = Some v))
              | FieldOperation fn inputs \<Rightarrow>
                  length (snd e) = length (fn_outputs fn) \<and>
                  (\<exists>ins. Call fn ins (snd e) \<in> set (instructions p)) \<and>
                  (\<forall>field. source_ptr field = fst e \<and> source_output_index field < length (fn_outputs fn)
                      \<longrightarrow> get_field_variable g field uv = Some (snd e ! source_output_index field)))"
proof -
  from build_procedure_total [OF assms] obtain p1 uv where
    inv: "build_inv n g requested \<lparr>fields_to_visit = [], builder = p1, unique_variables = uv\<rparr>"
    and b: "build_procedure assertions g requested empty_procedure [] =
             Some (Inr (p1\<lparr>instructions := built_instructions g uv requested\<rparr>, uv))"
    by blast
  let ?p = "p1\<lparr>instructions := built_instructions g uv requested\<rparr>"
  from build_invD(2) [OF inv] have d: "distinct (map fst uv)" by simp
  from build_invD(5) [OF inv] have ok: "\<forall>e \<in> set uv. entry_ok n g uv e" by simp
  from build_inv_final_keys [OF inv]
  have k: "fst ` set uv = reachable g (source_ptr ` set requested)" by simp
  have en: "case g (fst e) of
                FieldInput _ _ \<Rightarrow>
                  (\<exists>v. snd e = [v] \<and> InputParameter v \<in> set (instructions ?p) \<and>
                       (\<forall>field. source_ptr field = fst e \<longrightarrow> get_field_variable g field uv = Some v))
              | FieldOperation fn inputs \<Rightarrow>
                  length (snd e) = length (fn_outputs fn) \<and>
                  (\<exists>ins. Call fn ins (snd e) \<in> set (instructions ?p)) \<and>
                  (\<forall>field. source_ptr field = fst e \<and> source_output_index field < length (fn_outputs fn)
                      \<longrightarrow> get_field_variable g field uv = Some (snd e ! source_output_index field))"
    if e: "e \<in> set uv" for e
  proof (cases "g (fst e)")
    case (FieldInput ty name)
    from ok e have "entry_ok n g uv e" by blast
    with FieldInput have "length (snd e) = 1" by (simp add: entry_ok_def)
    then obtain v where v: "snd e = [v]" by (cases "snd e") auto
    from entry_instruction_built [OF e, of g requested] FieldInput v
    have 1: "InputParameter v \<in> set (instructions ?p)" by (simp add: entry_instruction_def)
    have 2: "get_field_variable g field uv = Some v" if "source_ptr field = fst e" for field
    proof (rule get_field_variable_input [OF d])
      have "e = (fst e, snd e)" by simp
      with e v that show "(source_ptr field, [v]) \<in> set uv" by metis
      from FieldInput that show "g (source_ptr field) = FieldInput ty name" by simp
    qed
    from v 1 2 FieldInput show ?thesis by simp
  next
    case (FieldOperation fn inputs)
    from ok e have "entry_ok n g uv e" by blast
    with FieldOperation have l: "length (snd e) = length (fn_outputs fn)"
      by (simp add: entry_ok_def)
    from entry_instruction_built [OF e, of g requested] FieldOperation
    have 1: "\<exists>ins. Call fn ins (snd e) \<in> set (instructions ?p)"
      by (auto simp: entry_instruction_def)
    have 2: "get_field_variable g field uv = Some (snd e ! source_output_index field)"
      if "source_ptr field = fst e" "source_output_index field < length (fn_outputs fn)" for field
    proof (rule get_field_variable_operation [OF d])
      have "e = (fst e, snd e)" by simp
      with e that(1) show "(source_ptr field, snd e) \<in> set uv" by metis
      from FieldOperation that(1) show "g (source_ptr field) = FieldOperation fn inputs" by simp
      from that(2) l show "source_output_index field < length (snd e)" by simp
    qed
    from l 1 2 FieldOperation show ?thesis by simp
  qed
  have rq: "\<exists>fn inputs ins outs.
                g (source_ptr f) = FieldOperation fn inputs \<and>
                map_of uv (source_ptr f) = Some outs \<and>
                length outs = length (fn_outputs fn) \<and>
                Call fn ins outs \<in> set (instructions ?p) \<and>
                get_field_variable g f uv = Some (outs ! source_output_index f)"
    if f: "f \<in> set requested" for f
  proof -
    from f have "source_ptr f \<in> reachable g (source_ptr ` set requested)"
      by (auto intro: reachable.root)
    with k obtain outs where e: "(source_ptr f, outs) \<in> set uv" by force
    with d have m: "map_of uv (source_ptr f) = Some outs" by simp
    from f assms(3) obtain fn inputs where op: "g (source_ptr f) = FieldOperation fn inputs"
      by (cases "g (source_ptr f)") (auto simp: is_input_def)
    from f assms(2) op have ix: "source_output_index f < length (fn_outputs fn)"
      by (auto simp: valid_field_def)
    from en [OF e] op have l: "length outs = length (fn_outputs fn)"
      and c: "\<exists>ins. Call fn ins outs \<in> set (instructions ?p)"
      and r: "\<forall>field. source_ptr field = source_ptr f \<and>
                source_output_index field < length (fn_outputs fn)
                \<longrightarrow> get_field_variable g field uv = Some (outs ! source_output_index field)"
      by simp_all
    from r ix have "get_field_variable g f uv = Some (outs ! source_output_index f)" by blast
    with op m l c show ?thesis by blast
  qed
  from b d k rq en show ?thesis by blast
qed

theorem unique_variables_record_call_outputs_witness:
  "acyclic_store 4 id example_store \<and>
   list_all (valid_field 4 example_store) [GField 3 1, GField 2 0] \<and>
   list_all (\<lambda>f. \<not> is_input example_store f) [GField 3 1, GField 2 0] \<and>
   map_option (map_sum id snd)
     (build_procedure True example_store [GField 3 1, GField 2 0] empty_procedure []) =
     Some (Inr [(0, [0]), (1, [1]), (2, [2]), (3, [3, 4])]) \<and>
   (\<exists>p uv. build_procedure True example_store [GField 3 1, GField 2 0] empty_procedure [] = Some (Inr (p, uv)) \<and>
           distinct (map fst uv) \<and>
           fst ` set uv = reachable example_store (source_ptr ` set [GField 3 1, GField 2 0]) \<and>
           (\<forall>f \<in> set [GField 3 1, GField 2 0].
              \<exists>fn inputs ins outs.
                example_store (source_ptr f) = FieldOperation fn inputs \<and>
                map_of uv (source_ptr f) = Some outs \<and>
                length outs = length (fn_outputs fn) \<and>
                Call fn ins outs \<in> set (instructions p) \<and>
                get_field_variable example_store f uv = Some (outs ! source_output_index f)) \<and>
           (\<forall>e \<in> set uv.
              case example_store (fst e) of
                FieldInput _ _ \<Rightarrow>
                  (\<exists>v. snd e = [v] \<and> InputParameter v \<in> set (instructions p) \<and>
                       (\<forall>field. source_ptr field = fst e \<longrightarrow>
                           get_field_variable example_store field uv = Some v))
              | FieldOperation fn inputs \<Rightarrow>
                  length (snd e) = length (fn_outputs fn) \<and>
                  (\<exists>ins. Call fn ins (snd e) \<in> set (instructions p)) \<and>
                  (\<forall>field. source_ptr field = fst e \<and> source_output_index field < length (fn_outputs fn)
                      \<longrightarrow> get_field_variable example_store field uv = Some (snd e ! source_output_index field))))"
proof -
  have h1: "acyclic_store 4 id example_store" by code_simp
  have h2: "\<forall>f \<in> set [GField 3 1, GField 2 0]. valid_field 4 example_store f"
    by (simp add: valid_field_def example_store_def)
  have h3: "\<forall>f \<in> set [GField 3 1, GField 2 0]. \<not> is_input example_store f"
    by (simp add: is_input_def example_store_def)
  have h2': "list_all (valid_field 4 example_store) [GField 3 1, GField 2 0]"
    using h2 by simp
  have h3': "list_all (\<lambda>f. \<not> is_input example_store f) [GField 3 1, GField 2 0]"
    using h3 by simp
  have c: "map_option (map_sum id snd)
     (build_procedure True example_store [GField 3 1, GField 2 0] empty_procedure []) =
     Some (Inr [(0, [0]), (1, [1]), (2, [2]), (3, [3, 4])])"
    by code_simp
  from unique_variables_record_call_outputs [OF h1 h2 h3, where assertions = True] h1 h2' h3' c
  show ?thesis by (intro conjI)
qed

subsection \<open>Deduplication\<close>









subsection \<open>Evaluation on the concrete graph\<close>

text \<open>
  C1. The requested field is \<open>sub(A, B)\<close> with \<open>A = 5\<close> and \<open>B = 3\<close> at element 0, so
  its value there is \<open>2\<close>. \<open>build_procedure\<close> declares the input parameters in the
  order \<open>A, B\<close> (the first unresolved input of an operation is resolved first), while
  \<open>gather_inputs\<close> pops what it pushed last and binds the data in the order \<open>B, A\<close>.
  The parameter slots are filled in the order the data is added, so the call computes
  \<open>B - A\<close> and \<open>evaluate_fields\<close> returns normally with \<open>-2\<close> in the buffer, with or
  without assertions.
\<close>

theorem evaluate_fields_binds_inputs_in_gather_order:
  "field_value 2 example_semantics example_data example_store [0] (GField 2 0) 0 = Some 2 \<and>
   map_option buffers
     (evaluate_fields assertions example_semantics example_data example_store [GField 2 0] [0] [[0]])
       = Some [[- 2]] \<and>
   map_option status
     (evaluate_fields assertions example_semantics example_data example_store [GField 2 0] [0] [[0]])
       = Some None \<and>
   map_option varray_calls
     (evaluate_fields assertions example_semantics example_data example_store [GField 2 0] [0] [[0]])
       = Some [1, 0] \<and>
   map_option (map_option (\<lambda>p. input_parameters (instructions p)) \<circ> built)
     (evaluate_fields assertions example_semantics example_data example_store [GField 2 0] [0] [[0]])
       = Some (Some [0, 1])"
proof (cases assertions)
  case True
  then have a: "assertions = True" by simp
  show ?thesis unfolding a by code_simp
next
  case False
  then have a: "assertions = False" by simp
  show ?thesis unfolding a by code_simp
qed

text \<open>
  C9. \<open>evaluate_constant_field\<close> on \<open>sub(A, B)\<close> with \<open>A = 5\<close> and \<open>B = 3\<close>: the
  field's value at element 0 is \<open>2\<close>, and the call, which is \<open>evaluate_fields\<close> on the
  singleton request with the one-element mask and a one-element buffer, leaves \<open>-2\<close>
  in the caller's storage, with or without assertions.
\<close>

theorem evaluate_constant_field_binds_inputs_in_gather_order:
  "field_value 2 example_semantics example_data example_store [0] (GField 2 0) 0 = Some 2 \<and>
   evaluate_constant_field assertions example_semantics example_data example_store (GField 2 0) 7 =
     evaluate_fields assertions example_semantics example_data example_store [GField 2 0] [0] [[7]] \<and>
   map_option buffers
     (evaluate_constant_field assertions example_semantics example_data example_store (GField 2 0) 7)
       = Some [[- 2]] \<and>
   map_option status
     (evaluate_constant_field assertions example_semantics example_data example_store (GField 2 0) 7)
       = Some None"
proof (cases assertions)
  case True
  then have a: "assertions = True" by simp
  show ?thesis unfolding a by code_simp
next
  case False
  then have a: "assertions = False" by simp
  show ?thesis unfolding a by code_simp
qed

subsection \<open>The loop over bare input fields\<close>

lemma remove_and_reorder_middle:
  "remove_and_reorder (xs @ x # ys) (length xs) = xs @ (if ys = [] then [] else last ys # butlast ys)"
  by (simp add: remove_and_reorder_def butlast_append)

lemma mset_last_butlast: "ys \<noteq> [] \<Longrightarrow> add_mset (last ys) (mset (butlast ys)) = mset ys"
proof -
  assume "ys \<noteq> []"
  then have "ys = butlast ys @ [last ys]" by simp
  then have "mset ys = mset (butlast ys @ [last ys])" by simp
  then show ?thesis by simp
qed

lemma split_step:
  assumes len: "length requested = length outputs" and i: "i < length requested"
    and inv: "split_inv get_varray g msk requested outputs (Suc i) s"
  shows "split_inv get_varray g msk requested outputs i
     (if is_input g (non_input_fields s ! i) then
          (let src = source_ptr (non_input_fields s ! i); w = world s in
           \<lparr>non_input_fields = remove_and_reorder (non_input_fields s) i,
            non_input_outputs = remove_and_reorder (non_input_outputs s) i,
            world = w\<lparr>buffers := (buffers w)[i := materialize (get_varray src msk) msk (buffers w ! i)],
                      varray_calls := varray_calls w @ [src]\<rparr>\<rparr>)
        else s)"
proof -
  let ?n = "length requested"
  let ?x = "requested ! i" and ?o = "outputs ! i"
  let ?M = "materialized_outputs get_varray g msk (drop (Suc i) (zip requested outputs))"
  from inv obtain rest where
    nf: "non_input_fields s = take (Suc i) requested @ map fst rest"
    and no: "non_input_outputs s = [0 ..< Suc i] @ map snd rest"
    and ms: "mset rest = mset (filter (\<lambda>(f, j). \<not> is_input g f)
                            (zip (drop (Suc i) requested) [Suc i ..< ?n]))"
    and bf: "buffers (world s) = take (Suc i) outputs @ ?M"
    and vc: "varray_calls (world s) = map source_ptr (filter (is_input g) (rev (drop (Suc i) requested)))"
    and st: "status (world s) = None" and bl: "built (world s) = None"
    unfolding split_inv_def by blast
  from i have tk: "take (Suc i) requested = take i requested @ [?x]"
    by (simp add: take_Suc_conv_app_nth)
  from i len have tko: "take (Suc i) outputs = take i outputs @ [?o]"
    by (simp add: take_Suc_conv_app_nth)
  from i have dr: "drop i requested = ?x # drop (Suc i) requested"
    by (simp add: Cons_nth_drop_Suc)
  from i have up: "[i ..< ?n] = i # [Suc i ..< ?n]" by (simp add: upt_conv_Cons)
  from i len have dz: "drop i (zip requested outputs) = (?x, ?o) # drop (Suc i) (zip requested outputs)"
    by (simp add: Cons_nth_drop_Suc [symmetric])
  from i have li: "length (take i requested) = i" by simp
  from i len have lo: "length (take i outputs) = i" by simp
  have nf': "non_input_fields s = take i requested @ ?x # map fst rest" by (simp add: nf tk)
  have no': "non_input_outputs s = [0 ..< i] @ i # map snd rest" by (simp add: no)
  have bf': "buffers (world s) = take i outputs @ ?o # ?M" by (simp add: bf tko)
  have top: "non_input_fields s ! i = ?x"
    unfolding nf' using li by (metis nth_append_length)
  have bi: "buffers (world s) ! i = ?o"
    unfolding bf' using lo by (metis nth_append_length)
  show ?thesis
  proof (cases "is_input g ?x")
    case False
    have "split_inv get_varray g msk requested outputs i s"
      unfolding split_inv_def
    proof (intro exI [of _ "(?x, i) # rest"] conjI)
      show "non_input_fields s = take i requested @ map fst ((?x, i) # rest)" by (simp add: nf')
      show "non_input_outputs s = [0 ..< i] @ map snd ((?x, i) # rest)" by (simp add: no')
      show "mset ((?x, i) # rest) = mset (filter (\<lambda>(f, j). \<not> is_input g f)
                            (zip (drop i requested) [i ..< ?n]))"
        using False by (simp add: dr up ms)
      show "buffers (world s) =
          take i outputs @ materialized_outputs get_varray g msk (drop i (zip requested outputs))"
        using False by (simp add: bf' dz materialized_outputs_def)
      show "varray_calls (world s) = map source_ptr (filter (is_input g) (rev (drop i requested)))"
        using False by (simp add: vc dr)
    qed (fact st, fact bl)
    with False top show ?thesis by simp
  next
    case True
    let ?rest' = "if rest = [] then [] else last rest # butlast rest"
    let ?s' = "\<lparr>non_input_fields = remove_and_reorder (non_input_fields s) i,
            non_input_outputs = remove_and_reorder (non_input_outputs s) i,
            world = (world s)\<lparr>buffers := (buffers (world s))[i := materialize (get_varray (source_ptr ?x) msk) msk ?o],
                      varray_calls := varray_calls (world s) @ [source_ptr ?x]\<rparr>\<rparr>"
    have r1: "remove_and_reorder (non_input_fields s) i = take i requested @ map fst ?rest'"
      using remove_and_reorder_middle [of "take i requested" ?x "map fst rest"] li
      by (simp add: nf' last_map map_butlast)
    have l0: "length [0 ..< i] = i" by simp
    have r2: "remove_and_reorder (non_input_outputs s) i = [0 ..< i] @ map snd ?rest'"
      using remove_and_reorder_middle [of "[0 ..< i]" i "map snd rest"]
      by (simp add: no' last_map map_butlast)
    have r3: "mset ?rest' = mset (filter (\<lambda>(f, j). \<not> is_input g f)
                            (zip (drop i requested) [i ..< ?n]))"
    proof -
      have a: "mset ?rest' = mset rest" by (simp add: mset_last_butlast)
      have b: "filter (\<lambda>(f, j). \<not> is_input g f) (zip (drop i requested) [i ..< ?n]) =
               filter (\<lambda>(f, j). \<not> is_input g f) (zip (drop (Suc i) requested) [Suc i ..< ?n])"
        using True by (simp add: dr up)
      show ?thesis by (simp only: a b ms)
    qed
    have r4: "(buffers (world s))[i := materialize (get_varray (source_ptr ?x) msk) msk ?o] =
          take i outputs @ materialized_outputs get_varray g msk (drop i (zip requested outputs))"
      using True lo by (simp add: bf' dz materialized_outputs_def list_update_append)
    have r5: "varray_calls (world s) @ [source_ptr ?x] =
          map source_ptr (filter (is_input g) (rev (drop i requested)))"
      using True by (simp add: vc dr)
    have "split_inv get_varray g msk requested outputs i ?s'"
      unfolding split_inv_def
    proof (intro exI [of _ ?rest'] conjI)
      show "non_input_fields ?s' = take i requested @ map fst ?rest'" using r1 by simp
      show "non_input_outputs ?s' = [0 ..< i] @ map snd ?rest'" using r2 by simp
      show "mset ?rest' = mset (filter (\<lambda>(f, j). \<not> is_input g f)
                            (zip (drop i requested) [i ..< ?n]))" by (rule r3)
      show "buffers (world ?s') =
          take i outputs @ materialized_outputs get_varray g msk (drop i (zip requested outputs))"
        using r4 by simp
      show "varray_calls (world ?s') = map source_ptr (filter (is_input g) (rev (drop i requested)))"
        using r5 by simp
      show "status (world ?s') = None" using st by simp
      show "built (world ?s') = None" using bl by simp
    qed
    with True top bi show ?thesis by (simp add: Let_def)
  qed
qed

lemma split_in_range:
  assumes len: "length requested = length outputs" and i: "i < length requested"
    and inv: "split_inv get_varray g msk requested outputs (Suc i) s"
  shows "i < length (buffers (world s)) \<and> i < length (non_input_outputs s)"
proof -
  from inv obtain rest where
    "non_input_fields s = take (Suc i) requested @ map fst rest"
    and no: "non_input_outputs s = [0 ..< Suc i] @ map snd rest"
    and "mset rest = mset (filter (\<lambda>(f, j). \<not> is_input g f)
                            (zip (drop (Suc i) requested) [Suc i ..< length requested]))"
    and bf: "buffers (world s) = take (Suc i) outputs @
               materialized_outputs get_varray g msk (drop (Suc i) (zip requested outputs))"
    unfolding split_inv_def by blast
  from i len have "length (take (Suc i) outputs) = Suc i" by simp
  with bf have "i < length (buffers (world s))" by simp
  moreover from no have "i < length (non_input_outputs s)" by simp
  ultimately show ?thesis by simp
qed

lemma process_input_fields_inv:
  assumes len: "length requested = length outputs"
  shows "i \<le> length requested \<Longrightarrow> split_inv get_varray g msk requested outputs i s \<Longrightarrow>
         split_inv get_varray g msk requested outputs 0 (process_input_fields get_varray g msk i s)"
proof (induction i arbitrary: s)
  case 0
  then show ?case by simp
next
  case (Suc i)
  from Suc.prems(1) have i: "i < length requested" by simp
  note st = split_step [OF len i Suc.prems(2)]
  note rg = split_in_range [OF len i Suc.prems(2)]
  show ?case
  proof (cases "is_input g (non_input_fields s ! i)")
    case True
    let ?s' = "let src = source_ptr (non_input_fields s ! i); w = world s in
           \<lparr>non_input_fields = remove_and_reorder (non_input_fields s) i,
            non_input_outputs = remove_and_reorder (non_input_outputs s) i,
            world = w\<lparr>buffers := (buffers w)[i := materialize (get_varray src msk) msk (buffers w ! i)],
                      varray_calls := varray_calls w @ [src]\<rparr>\<rparr>"
    from st True have "split_inv get_varray g msk requested outputs i ?s'" by simp
    with Suc.IH i have "split_inv get_varray g msk requested outputs 0
        (process_input_fields get_varray g msk i ?s')" by simp
    moreover from True rg have "process_input_fields get_varray g msk (Suc i) s =
        process_input_fields get_varray g msk i ?s'" by simp
    ultimately show ?thesis by simp
  next
    case False
    with st have "split_inv get_varray g msk requested outputs i s" by simp
    with Suc.IH i have "split_inv get_varray g msk requested outputs 0
        (process_input_fields get_varray g msk i s)" by simp
    with False show ?thesis by simp
  qed
qed

lemma split_inv_initial:
  assumes len: "length requested = length outputs"
  shows "split_inv get_varray g msk requested outputs (length requested)
      \<lparr>non_input_fields = requested, non_input_outputs = [0 ..< length outputs],
       world = \<lparr>status = None, buffers = outputs, varray_calls = [], built = None\<rparr>\<rparr>"
  unfolding split_inv_def using len
  by (intro exI [of _ "[]"]) (simp add: materialized_outputs_def)

subsection \<open>Reachability\<close>

lemma reachable_mono: "A \<subseteq> B \<Longrightarrow> reachable g A \<subseteq> reachable g B"
proof
  fix p assume "A \<subseteq> B" "p \<in> reachable g A"
  from this(2,1) show "p \<in> reachable g B"
    by induction (auto intro: reachable.intros)
qed

lemma reachable_closed: "A \<subseteq> reachable g B \<Longrightarrow> reachable g A \<subseteq> reachable g B"
proof
  fix p assume "A \<subseteq> reachable g B" "p \<in> reachable g A"
  from this(2,1) show "p \<in> reachable g B"
    by induction (auto intro: reachable.intros)
qed

lemma reachable_empty: "reachable g {} = {}"
proof -
  have "p \<in> reachable g {} \<Longrightarrow> False" for p by (induction rule: reachable.induct) auto
  then show ?thesis by blast
qed

lemma reachable_insert_operation:
  assumes "g p = FieldOperation fn inputs"
  shows "reachable g (insert p S) \<subseteq> insert p (reachable g (source_ptr ` set inputs \<union> S))"
proof
  fix q assume "q \<in> reachable g (insert p S)"
  then show "q \<in> insert p (reachable g (source_ptr ` set inputs \<union> S))"
  proof induction
    case (root q)
    then show ?case by (auto intro: reachable.root)
  next
    case (input q fn' inputs' f)
    show ?case
    proof (cases "q = p")
      case True
      with input.hyps(2,3) assms have "source_ptr f \<in> source_ptr ` set inputs" by auto
      then show ?thesis by (auto intro: reachable.root)
    next
      case False
      with input.IH have "q \<in> reachable g (source_ptr ` set inputs \<union> S)" by simp
      from reachable.input [OF this input.hyps(2,3)] show ?thesis by simp
    qed
  qed
qed

lemma reachable_insert_input:
  assumes "g p = FieldInput ty name"
  shows "reachable g (insert p S) \<subseteq> insert p (reachable g S)"
proof
  fix q assume "q \<in> reachable g (insert p S)"
  then show "q \<in> insert p (reachable g S)"
  proof induction
    case (root q)
    then show ?case by (auto intro: reachable.root)
  next
    case (input q fn' inputs' f)
    show ?case
    proof (cases "q = p")
      case True
      with input.hyps(2) assms show ?thesis by simp
    next
      case False
      with input.IH have "q \<in> reachable g S" by simp
      from reachable.input [OF this input.hyps(2,3)] show ?thesis by simp
    qed
  qed
qed

subsection \<open>The variables of distinct sources\<close>

lemma distinct_concat_entries:
  assumes "distinct (concat (map snd uv))"
    and "(q1, vs1) \<in> set uv" "(q2, vs2) \<in> set uv" "v \<in> set vs1" "v \<in> set vs2"
  shows "(q1, vs1) = (q2, vs2)"
  using assms
proof (induction uv)
  case Nil
  then show ?case by simp
next
  case (Cons e uv)
  from Cons.prems(1) have d: "distinct (concat (map snd uv))"
    and dj: "set (snd e) \<inter> set (concat (map snd uv)) = {}" by auto
  have out: "v \<notin> set (snd e)" if "(q, vs) \<in> set uv" "v \<in> set vs" for q vs
  proof -
    from that have "v \<in> set (concat (map snd uv))" by force
    with dj show ?thesis by blast
  qed
  show ?case
  proof (cases "(q1, vs1) = e")
    case True
    show ?thesis
    proof (cases "(q2, vs2) = e")
      case True
      with \<open>(q1, vs1) = e\<close> show ?thesis by simp
    next
      case False
      with Cons.prems(3) have "(q2, vs2) \<in> set uv" by simp
      from out [OF this Cons.prems(5)] True Cons.prems(4) show ?thesis by auto
    qed
  next
    case False
    with Cons.prems(2) have 1: "(q1, vs1) \<in> set uv" by simp
    show ?thesis
    proof (cases "(q2, vs2) = e")
      case True
      from out [OF 1 Cons.prems(4)] True Cons.prems(5) show ?thesis by auto
    next
      case False
      with Cons.prems(3) have "(q2, vs2) \<in> set uv" by simp
      from Cons.IH [OF d 1 this Cons.prems(4,5)] show ?thesis .
    qed
  qed
qed

subsection \<open>The worklist of gather_inputs\<close>

lemma gather_invD:
  assumes "gather_inv n g get_varray uv msk R s"
  shows "\<forall>f \<in> set (gather_to_visit s). valid_field n g f \<and> contains uv (source_ptr f)"
    and "distinct (pulled s)"
    and "\<forall>q \<in> set (pulled s). is_input_source (g q) \<and> q \<in> reachable g (source_ptr ` set R)"
    and "computed_inputs s = {v. \<exists>q \<in> set (pulled s). map_of uv q = Some [v]}"
    and "param_inputs s = map (\<lambda>q. get_varray q msk) (pulled s)"
    and "source_ptr ` set (gather_to_visit s) \<subseteq> reachable g (source_ptr ` set R)"
    and "{q \<in> reachable g (source_ptr ` set R). is_input_source (g q)}
        \<subseteq> set (pulled s) \<union> reachable g (source_ptr ` set (gather_to_visit s))"
  using assms unfolding gather_inv_def by blast+

lemma gather_invI:
  assumes "\<forall>f \<in> set (gather_to_visit s). valid_field n g f \<and> contains uv (source_ptr f)"
    and "distinct (pulled s)"
    and "\<forall>q \<in> set (pulled s). is_input_source (g q) \<and> q \<in> reachable g (source_ptr ` set R)"
    and "computed_inputs s = {v. \<exists>q \<in> set (pulled s). map_of uv q = Some [v]}"
    and "param_inputs s = map (\<lambda>q. get_varray q msk) (pulled s)"
    and "source_ptr ` set (gather_to_visit s) \<subseteq> reachable g (source_ptr ` set R)"
    and "{q \<in> reachable g (source_ptr ` set R). is_input_source (g q)}
        \<subseteq> set (pulled s) \<union> reachable g (source_ptr ` set (gather_to_visit s))"
  shows "gather_inv n g get_varray uv msk R s"
  using assms unfolding gather_inv_def by blast

lemma gather_top_step:
  assumes ac: "acyclic_store n rank g" and binv: "build_inv n g R0 sb"
    and inv: "gather_inv n g get_varray (unique_variables sb) msk R s"
    and st: "gather_to_visit s \<noteq> []"
  shows "\<exists>s'. gather_top g get_varray (unique_variables sb) msk s = Inr s' \<and>
              gather_inv n g get_varray (unique_variables sb) msk R s' \<and>
              (mset (map (rank \<circ> source_ptr) (gather_to_visit s')), mset (map (rank \<circ> source_ptr) (gather_to_visit s)))
                \<in> mult less_than"
proof -
  let ?uv = "unique_variables sb"
  let ?reach = "reachable g (source_ptr ` set R)"
  from st obtain top rest where stk: "gather_to_visit s = top # rest"
    by (cases "gather_to_visit s") auto
  note i = gather_invD [OF inv]
  note b = build_invD [OF binv]
  from i(1) have vtop: "valid_field n g top" and ctop: "contains ?uv (source_ptr top)"
    unfolding stk by simp_all
  from vtop have topn: "source_ptr top < n" by (simp add: valid_field_def)
  from i(1) have vrest: "\<forall>f \<in> set rest. valid_field n g f \<and> contains ?uv (source_ptr f)"
    unfolding stk by simp
  from i(6) have rtop: "source_ptr top \<in> ?reach" and rrest: "source_ptr ` set rest \<subseteq> ?reach"
    unfolding stk by simp_all
  from ctop obtain vs where e: "(source_ptr top, vs) \<in> set ?uv" using contained_entry by blast
  with b(5) have ok: "entry_ok n g ?uv (source_ptr top, vs)" by blast
  from b(2) e have m: "map_of ?uv (source_ptr top) = Some vs" by simp
  have hdtl: "hd (gather_to_visit s) = top" "tl (gather_to_visit s) = rest" by (simp_all add: stk)
  have dec1: "(mset (map (rank \<circ> source_ptr) rest), mset (map (rank \<circ> source_ptr) (top # rest))) \<in> mult less_than"
    using one_step_implies_mult [of "{#rank (source_ptr top)#}" "{#}" less_than "mset (map (rank \<circ> source_ptr) rest)"]
    by simp
  show ?thesis
  proof (cases "g (source_ptr top)")
    case (FieldInput ty name)
    then have isin: "is_input g top" by (simp add: is_input_def)
    from ok FieldInput have "length vs = 1" by (simp add: entry_ok_def)
    then obtain v where v: "vs = [v]" by (cases vs) auto
    have gfv: "get_field_variable g top ?uv = Some v"
      using b(2) e [unfolded v] FieldInput by (rule get_field_variable_input)
    have rin: "reachable g (source_ptr ` set (top # rest))
                 \<subseteq> insert (source_ptr top) (reachable g (source_ptr ` set rest))"
      using reachable_insert_input [where g = g and p = "source_ptr top" and S = "source_ptr ` set rest",
          OF FieldInput] by simp
    show ?thesis
    proof (cases "v \<in> computed_inputs s")
      case True
      let ?s' = "s\<lparr>gather_to_visit := rest\<rparr>"
      have 1: "gather_top g get_varray ?uv msk s = Inr ?s'"
        using True isin gfv by (simp add: gather_top_def hdtl)
      from True i(4) obtain q where q: "q \<in> set (pulled s)" "map_of ?uv q = Some [v]" by auto
      from q(2) have "(q, [v]) \<in> set ?uv" by (rule map_of_SomeD)
      from distinct_concat_entries [OF _ this e [unfolded v]] b(3)
      have "q = source_ptr top" by simp
      with q(1) have pin: "source_ptr top \<in> set (pulled s)" by simp
      have c7: "{q \<in> ?reach. is_input_source (g q)}
                  \<subseteq> set (pulled s) \<union> reachable g (source_ptr ` set rest)"
        using i(7) [unfolded stk] rin pin by blast
      have 2: "gather_inv n g get_varray ?uv msk R ?s'"
        by (rule gather_invI) (use vrest i(2,3,4,5) rrest c7 in simp_all)
      from 1 2 dec1 show ?thesis by (auto simp: stk)
    next
      case False
      let ?s' = "\<lparr>gather_to_visit = rest,
                       computed_inputs = insert v (computed_inputs s),
                       param_inputs = param_inputs s @ [get_varray (source_ptr top) msk],
                       pulled = pulled s @ [source_ptr top]\<rparr>"
      have 1: "gather_top g get_varray ?uv msk s = Inr ?s'"
        using False isin gfv by (simp add: gather_top_def hdtl)
      have notp: "source_ptr top \<notin> set (pulled s)"
      proof
        assume "source_ptr top \<in> set (pulled s)"
        with m v i(4) have "v \<in> computed_inputs s" by auto
        with False show False by simp
      qed
      have c3: "\<forall>q \<in> set (pulled s @ [source_ptr top]). is_input_source (g q) \<and> q \<in> ?reach"
        using i(3) rtop FieldInput by (simp add: is_input_source_def)
      have c4: "insert v (computed_inputs s) =
                  {v'. \<exists>q \<in> set (pulled s @ [source_ptr top]). map_of ?uv q = Some [v']}"
        using i(4) m v by auto
      have c7: "{q \<in> ?reach. is_input_source (g q)}
                  \<subseteq> set (pulled s @ [source_ptr top]) \<union> reachable g (source_ptr ` set rest)"
        using i(7) [unfolded stk] rin by auto
      have 2: "gather_inv n g get_varray ?uv msk R ?s'"
        by (rule gather_invI) (use vrest i(2,5) notp c3 c4 rrest c7 in simp_all)
      from 1 2 dec1 show ?thesis by (auto simp: stk)
    qed
  next
    case (FieldOperation fn inputs)
    then have nin: "\<not> is_input g top" by (simp add: is_input_def)
    let ?s' = "s\<lparr>gather_to_visit := rev inputs @ rest\<rparr>"
    have 1: "gather_top g get_varray ?uv msk s = Inr ?s'"
      using nin FieldOperation by (simp add: gather_top_def hdtl)
    have vin: "\<forall>f \<in> set inputs. valid_field n g f \<and> contains ?uv (source_ptr f)"
    proof
      fix f assume f: "f \<in> set inputs"
      from acyclic_storeD [OF ac topn FieldOperation f] have "valid_field n g f" by simp
      moreover from ok FieldOperation f have "contains ?uv (source_ptr f)" by (simp add: entry_ok_def)
      ultimately show "valid_field n g f \<and> contains ?uv (source_ptr f)" by simp
    qed
    have rinp: "source_ptr ` set inputs \<subseteq> ?reach"
      using rtop FieldOperation by (auto intro: reachable.input)
    have c1: "\<forall>f \<in> set (rev inputs @ rest). valid_field n g f \<and> contains ?uv (source_ptr f)"
      using vin vrest by auto
    have c6: "source_ptr ` set (rev inputs @ rest) \<subseteq> ?reach"
      using rinp rrest by auto
    have rop: "reachable g (source_ptr ` set (top # rest))
                 \<subseteq> insert (source_ptr top) (reachable g (source_ptr ` set (rev inputs @ rest)))"
      using reachable_insert_operation [where g = g and p = "source_ptr top"
          and S = "source_ptr ` set rest", OF FieldOperation]
      by (simp add: image_Un)
    have notin: "\<not> is_input_source (g (source_ptr top))"
      using FieldOperation by (simp add: is_input_source_def)
    have c7: "{q \<in> ?reach. is_input_source (g q)}
                  \<subseteq> set (pulled s) \<union> reachable g (source_ptr ` set (rev inputs @ rest))"
      using i(7) [unfolded stk] rop notin by blast
    have 2: "gather_inv n g get_varray ?uv msk R ?s'"
      by (rule gather_invI) (use c1 i(2,3,4,5) c6 c7 in simp_all)
    have less: "\<forall>k \<in> set_mset (mset (map (rank \<circ> source_ptr) (rev inputs))).
                  \<exists>j \<in> set_mset {#rank (source_ptr top)#}. (k, j) \<in> less_than"
    proof
      fix k assume "k \<in> set_mset (mset (map (rank \<circ> source_ptr) (rev inputs)))"
      then obtain f where f: "f \<in> set inputs" "k = rank (source_ptr f)" by auto
      from acyclic_storeD [OF ac topn FieldOperation f(1)] f(2)
      show "\<exists>j \<in> set_mset {#rank (source_ptr top)#}. (k, j) \<in> less_than" by simp
    qed
    have "(mset (map (rank \<circ> source_ptr) rest) + mset (map (rank \<circ> source_ptr) (rev inputs)),
           mset (map (rank \<circ> source_ptr) rest) + {#rank (source_ptr top)#}) \<in> mult less_than"
      by (rule one_step_implies_mult [OF _ less]) simp
    then have 3: "(mset (map (rank \<circ> source_ptr) (rev inputs @ rest)), mset (map (rank \<circ> source_ptr) (top # rest)))
                   \<in> mult less_than"
      by (simp add: add.commute)
    from 1 2 3 show ?thesis by (auto simp: stk)
  qed
qed

lemma gather_loop_total:
  assumes ac: "acyclic_store n rank g" and binv: "build_inv n g R0 sb"
    and inv: "gather_inv n g get_varray (unique_variables sb) msk R s"
  shows "\<exists>s'. gather_loop g get_varray (unique_variables sb) msk s = Some (Inr s') \<and>
              gather_inv n g get_varray (unique_variables sb) msk R s' \<and> gather_to_visit s' = []"
  using inv
proof (induction s rule: wf_induct_rule
    [OF wf_inv_image [OF wf_mult [OF wf_less_than],
        of "\<lambda>s. mset (map (rank \<circ> source_ptr) (gather_to_visit s))"]])
  case (1 s)
  show ?case
  proof (cases "gather_to_visit s = []")
    case True
    with "1.prems" show ?thesis by (subst gather_loop.simps) simp
  next
    case False
    from gather_top_step [OF ac binv "1.prems" False] obtain s1 where
      s1: "gather_top g get_varray (unique_variables sb) msk s = Inr s1"
          "gather_inv n g get_varray (unique_variables sb) msk R s1"
          "(mset (map (rank \<circ> source_ptr) (gather_to_visit s1)), mset (map (rank \<circ> source_ptr) (gather_to_visit s)))
                \<in> mult less_than" by blast
    from s1(3) have "(s1, s) \<in> inv_image (mult less_than) (\<lambda>s. mset (map (rank \<circ> source_ptr) (gather_to_visit s)))"
      by simp
    from "1.IH" [OF this s1(2)] obtain s' where
      "gather_loop g get_varray (unique_variables sb) msk s1 = Some (Inr s')"
      "gather_inv n g get_varray (unique_variables sb) msk R s'" "gather_to_visit s' = []" by blast
    with False s1(1) show ?thesis by (subst gather_loop.simps) simp
  qed
qed

lemma gather_inputs_total:
  assumes ac: "acyclic_store n rank g" and binv: "build_inv n g R sb" and e: "fields_to_visit sb = []"
    and R: "\<forall>f \<in> set R. valid_field n g f"
  shows "\<exists>gs. gather_inputs g get_varray R (unique_variables sb) msk = Some (Inr gs) \<and>
           distinct (pulled gs) \<and>
           set (pulled gs) = {q \<in> reachable g (source_ptr ` set R). is_input_source (g q)} \<and>
           param_inputs gs = map (\<lambda>q. get_varray q msk) (pulled gs)"
proof -
  let ?uv = "unique_variables sb"
  let ?s0 = "\<lparr>gather_to_visit = rev R, computed_inputs = {}, param_inputs = [], pulled = []\<rparr>"
  have c1: "\<forall>f \<in> set (gather_to_visit ?s0). valid_field n g f \<and> contains ?uv (source_ptr f)"
    using R build_invD(9) [OF binv] e by auto
  have c6: "source_ptr ` set (gather_to_visit ?s0) \<subseteq> reachable g (source_ptr ` set R)"
    by (auto intro: reachable.root)
  have c7: "{q \<in> reachable g (source_ptr ` set R). is_input_source (g q)}
        \<subseteq> set (pulled ?s0) \<union> reachable g (source_ptr ` set (gather_to_visit ?s0))"
    by auto
  have "gather_inv n g get_varray ?uv msk R ?s0"
    by (rule gather_invI [OF c1 _ _ _ _ c6 c7]) simp_all
  from gather_loop_total [OF ac binv this] obtain gs where
    gs: "gather_loop g get_varray ?uv msk ?s0 = Some (Inr gs)"
        "gather_inv n g get_varray ?uv msk R gs" "gather_to_visit gs = []" by blast
  note i = gather_invD [OF gs(2)]
  from i(7) gs(3) have "{q \<in> reachable g (source_ptr ` set R). is_input_source (g q)} \<subseteq> set (pulled gs)"
    by (simp add: reachable_empty)
  with i(3) have "set (pulled gs) = {q \<in> reachable g (source_ptr ` set R). is_input_source (g q)}"
    by blast
  with gs(1) i(2) i(5) show ?thesis by (simp add: gather_inputs_def)
qed

subsection \<open>What the executor may write\<close>

lemma write_outputs_frame:
  "write_outputs env msk zs bs = Inr bs' \<Longrightarrow>
     length bs' = length bs \<and> (\<forall>j. j \<notin> snd ` set zs \<longrightarrow> bs' ! j = bs ! j)"
proof (induction zs arbitrary: bs)
  case Nil
  then show ?case by simp
next
  case (Cons z zs)
  obtain v span where z: "z = (v, span)" by (cases z)
  from Cons.prems z obtain data where d: "env v = Some data"
    and w: "write_outputs env msk zs (bs[span := materialize data msk (bs ! span)]) = Inr bs'"
    by (auto split: option.splits)
  from Cons.IH [OF w] z show ?case by auto
qed

lemma executor_call_frame:
  assumes "executor_call sem p msk inputs outputs bs = Inr bs'"
  shows "length bs' = length bs \<and> (\<forall>j. j \<notin> set outputs \<longrightarrow> bs' ! j = bs ! j)"
proof -
  from assms obtain env where
    "write_outputs env msk (zip (output_parameters (instructions p)) outputs) bs = Inr bs'"
    by (auto simp: executor_call_def Let_def split: if_splits sum.splits)
  from write_outputs_frame [OF this] have l: "length bs' = length bs"
    and f: "\<forall>j. j \<notin> snd ` set (zip (output_parameters (instructions p)) outputs) \<longrightarrow> bs' ! j = bs ! j"
    by simp_all
  have "snd ` set (zip (output_parameters (instructions p)) outputs) \<subseteq> set outputs"
    by (auto dest: set_zip_rightD)
  with l f show ?thesis by blast
qed

lemma evaluate_non_input_fields_frame:
  assumes "evaluate_non_input_fields assertions sem get_varray g R msk outs w = Some out"
  shows "length (buffers out) = length (buffers w) \<and>
         (\<forall>j. j \<notin> set outs \<longrightarrow> buffers out ! j = buffers w ! j) \<and>
         (built out = built w \<or>
          (\<exists>p uv. built out = Some p \<and> build_procedure assertions g R empty_procedure [] = Some (Inr (p, uv))))"
proof (cases "build_procedure assertions g R empty_procedure []")
  case None
  with assms show ?thesis by (simp add: evaluate_non_input_fields_def)
next
  case (Some r)
  show ?thesis
  proof (cases r)
    case (Inl e)
    with Some assms show ?thesis by (auto simp: evaluate_non_input_fields_def)
  next
    case (Inr pu)
    obtain p uv where pu: "pu = (p, uv)" by (cases pu)
    note b = Some [unfolded Inr pu]
    show ?thesis
    proof (cases "gather_inputs g get_varray R uv msk")
      case None
      with b assms show ?thesis by (simp add: evaluate_non_input_fields_def)
    next
      case gsome: (Some r')
      show ?thesis
      proof (cases r')
        case (Inl e)
        with gsome b assms show ?thesis by (auto simp: evaluate_non_input_fields_def)
      next
        case gs: (Inr gs)
        let ?w' = "w\<lparr>varray_calls := varray_calls w @ pulled gs, built := Some p\<rparr>"
        show ?thesis
        proof (cases "executor_call sem p msk (param_inputs gs) outs (buffers w)")
          case (Inl e)
          with gs gsome b assms show ?thesis by (auto simp: evaluate_non_input_fields_def)
        next
          case (Inr bs)
          with gs gsome b assms have o: "out = ?w'\<lparr>buffers := bs\<rparr>"
            by (auto simp: evaluate_non_input_fields_def)
          from executor_call_frame [OF Inr] o b show ?thesis by simp
        qed
      qed
    qed
  qed
qed

lemma evaluate_non_input_fields_total:
  assumes ac: "acyclic_store n rank g" and R: "\<forall>f \<in> set R. valid_field n g f"
    and ni: "\<forall>f \<in> set R. \<not> is_input g f"
  shows "\<exists>out pulled. evaluate_non_input_fields assertions sem get_varray g R msk outs w = Some out \<and>
           varray_calls out = varray_calls w @ pulled \<and> distinct pulled \<and>
           set pulled = {q \<in> reachable g (source_ptr ` set R). is_input_source (g q)}"
proof -
  from build_procedure_total [OF ac R ni] obtain p1 uv where
    inv: "build_inv n g R \<lparr>fields_to_visit = [], builder = p1, unique_variables = uv\<rparr>"
    and b: "build_procedure assertions g R empty_procedure [] =
             Some (Inr (p1\<lparr>instructions := built_instructions g uv R\<rparr>, uv))"
    by blast
  from gather_inputs_total [OF ac inv _ R, of get_varray msk] obtain gs where
    gs: "gather_inputs g get_varray R uv msk = Some (Inr gs)" "distinct (pulled gs)"
        "set (pulled gs) = {q \<in> reachable g (source_ptr ` set R). is_input_source (g q)}"
    by auto
  let ?p = "p1\<lparr>instructions := built_instructions g uv R\<rparr>"
  show ?thesis
  proof (cases "executor_call sem ?p msk (param_inputs gs) outs (buffers w)")
    case (Inl e)
    with b gs(1) have "evaluate_non_input_fields assertions sem get_varray g R msk outs w =
        Some (w\<lparr>varray_calls := varray_calls w @ pulled gs, built := Some ?p, status := Some e\<rparr>)"
      by (simp add: evaluate_non_input_fields_def)
    with gs(2,3) show ?thesis by simp
  next
    case (Inr bs)
    with b gs(1) have "evaluate_non_input_fields assertions sem get_varray g R msk outs w =
        Some (w\<lparr>varray_calls := varray_calls w @ pulled gs, built := Some ?p, buffers := bs\<rparr>)"
      by (simp add: evaluate_non_input_fields_def)
    with gs(2,3) show ?thesis by simp
  qed
qed

subsection \<open>The two phases of evaluate_fields\<close>

lemma split_result:
  assumes len: "length requested = length outputs"
  shows "\<exists>rest w.
      process_input_fields get_varray g msk (length requested)
        \<lparr>non_input_fields = requested, non_input_outputs = [0 ..< length outputs],
         world = \<lparr>status = None, buffers = outputs, varray_calls = [], built = None\<rparr>\<rparr> =
      \<lparr>non_input_fields = map fst rest, non_input_outputs = map snd rest, world = w\<rparr> \<and>
      mset rest = mset (filter (\<lambda>(f, j). \<not> is_input g f) (zip requested [0 ..< length requested])) \<and>
      buffers w = materialized_outputs get_varray g msk (zip requested outputs) \<and>
      varray_calls w = map source_ptr (filter (is_input g) (rev requested)) \<and>
      status w = None \<and> built w = None"
proof -
  let ?s = "process_input_fields get_varray g msk (length requested)
        \<lparr>non_input_fields = requested, non_input_outputs = [0 ..< length outputs],
         world = \<lparr>status = None, buffers = outputs, varray_calls = [], built = None\<rparr>\<rparr>"
  from process_input_fields_inv [OF len _ split_inv_initial [OF len]]
  have "split_inv get_varray g msk requested outputs 0 ?s" by simp
  then obtain rest where r:
    "non_input_fields ?s = map fst rest" "non_input_outputs ?s = map snd rest"
    "mset rest = mset (filter (\<lambda>(f, j). \<not> is_input g f) (zip requested [0 ..< length requested]))"
    "buffers (world ?s) = materialized_outputs get_varray g msk (zip requested outputs)"
    "varray_calls (world ?s) = map source_ptr (filter (is_input g) (rev requested))"
    "status (world ?s) = None" "built (world ?s) = None"
    unfolding split_inv_def by auto
  have "?s = \<lparr>non_input_fields = map fst rest, non_input_outputs = map snd rest, world = world ?s\<rparr>"
    using r(1,2) by (cases ?s) simp
  with r(3-7) show ?thesis by blast
qed

lemma evaluate_fields_split:
  assumes len: "length requested = length outputs"
  shows "\<exists>rest w.
      mset rest = mset (filter (\<lambda>(f, j). \<not> is_input g f) (zip requested [0 ..< length requested])) \<and>
      buffers w = materialized_outputs get_varray g msk (zip requested outputs) \<and>
      varray_calls w = map source_ptr (filter (is_input g) (rev requested)) \<and>
      status w = None \<and> built w = None \<and>
      evaluate_fields assertions sem get_varray g requested msk outputs =
        (if rest = [] then Some w
         else evaluate_non_input_fields assertions sem get_varray g (map fst rest) msk (map snd rest) w)"
proof -
  from split_result [OF len, of get_varray g msk] obtain rest w where
    s: "process_input_fields get_varray g msk (length requested)
        \<lparr>non_input_fields = requested, non_input_outputs = [0 ..< length outputs],
         world = \<lparr>status = None, buffers = outputs, varray_calls = [], built = None\<rparr>\<rparr> =
      \<lparr>non_input_fields = map fst rest, non_input_outputs = map snd rest, world = w\<rparr>"
    and r: "mset rest = mset (filter (\<lambda>(f, j). \<not> is_input g f) (zip requested [0 ..< length requested]))"
      "buffers w = materialized_outputs get_varray g msk (zip requested outputs)"
      "varray_calls w = map source_ptr (filter (is_input g) (rev requested))"
      "status w = None" "built w = None"
    by blast
  have "evaluate_fields assertions sem get_varray g requested msk outputs =
        (if rest = [] then Some w
         else evaluate_non_input_fields assertions sem get_varray g (map fst rest) msk (map snd rest) w)"
    unfolding evaluate_fields_def Let_def s using len r(4) by simp
  with r show ?thesis by blast
qed

lemma non_input_rest:
  assumes "mset rest = mset (filter (\<lambda>(f, j). \<not> is_input g f) (zip requested [0 ..< length requested]))"
  shows "fst ` set rest = {f \<in> set requested. \<not> is_input g f}"
    and "\<forall>i < length requested. is_input g (requested ! i) \<longrightarrow> i \<notin> snd ` set rest"
proof -
  from assms have s: "set rest = set (filter (\<lambda>(f, j). \<not> is_input g f) (zip requested [0 ..< length requested]))"
    by (metis set_mset_mset)
  show "fst ` set rest = {f \<in> set requested. \<not> is_input g f}"
  proof
    show "fst ` set rest \<subseteq> {f \<in> set requested. \<not> is_input g f}"
      unfolding s by (auto dest: set_zip_leftD)
    show "{f \<in> set requested. \<not> is_input g f} \<subseteq> fst ` set rest"
    proof
      fix f assume "f \<in> {f \<in> set requested. \<not> is_input g f}"
      then have f: "f \<in> set requested" "\<not> is_input g f" by simp_all
      then obtain i where i: "i < length requested" "requested ! i = f"
        by (auto simp: in_set_conv_nth)
      then have "(f, i) \<in> set (zip requested [0 ..< length requested])"
        by (auto simp: set_zip)
      with f(2) have "(f, i) \<in> set rest" unfolding s by simp
      then show "f \<in> fst ` set rest" by force
    qed
  qed
  show "\<forall>i < length requested. is_input g (requested ! i) \<longrightarrow> i \<notin> snd ` set rest"
    unfolding s by (auto simp: set_zip)
qed

text \<open>
  C8. When the numbers of requested fields and of output buffers agree,
  \<open>evaluate_fields\<close> first reaches a state \<open>w\<close> in which every buffer paired with a bare
  input field holds that input's materialized data, the other buffers are untouched and
  no procedure has been built; \<open>rest\<close> are the operation-rooted requested fields, each
  with the position of its own buffer. If there are none (in particular if every
  requested field is a bare input) the call ends in \<open>w\<close>; otherwise it continues with
  \<open>evaluate_non_input_fields\<close> on exactly those fields. Whatever the call returns, the
  buffers of the bare inputs hold their materialized data, and a procedure that was
  built is the one \<open>build_procedure\<close> makes for the operation-rooted fields alone.
\<close>

theorem evaluate_fields_bare_inputs_bypass:
  assumes "length requested = length outputs"
  shows "\<exists>rest w.
      mset rest = mset (filter (\<lambda>(f, j). \<not> is_input g f) (zip requested [0 ..< length requested])) \<and>
      buffers w = materialized_outputs get_varray g msk (zip requested outputs) \<and>
      status w = None \<and> built w = None \<and>
      evaluate_fields assertions sem get_varray g requested msk outputs =
        (if rest = [] then Some w
         else evaluate_non_input_fields assertions sem get_varray g (map fst rest) msk (map snd rest) w) \<and>
      ((\<forall>f \<in> set requested. is_input g f) \<longrightarrow> rest = []) \<and>
      (\<forall>out. evaluate_fields assertions sem get_varray g requested msk outputs = Some out \<longrightarrow>
          (\<forall>i < length requested. is_input g (requested ! i) \<longrightarrow>
              buffers out ! i =
                materialize (get_varray (source_ptr (requested ! i)) msk) msk (outputs ! i)) \<and>
          (\<forall>p. built out = Some p \<longrightarrow>
              rest \<noteq> [] \<and>
              (\<exists>uv. build_procedure assertions g (map fst rest) empty_procedure [] = Some (Inr (p, uv)))))"
proof -
  from evaluate_fields_split [OF assms, where g = g and get_varray = get_varray and msk = msk
      and sem = sem and assertions = assertions] obtain rest w where
    r: "mset rest = mset (filter (\<lambda>(f, j). \<not> is_input g f) (zip requested [0 ..< length requested]))"
    and bw: "buffers w = materialized_outputs get_varray g msk (zip requested outputs)"
    and sw: "status w = None" and blw: "built w = None"
    and ev: "evaluate_fields assertions sem get_varray g requested msk outputs =
        (if rest = [] then Some w
         else evaluate_non_input_fields assertions sem get_varray g (map fst rest) msk (map snd rest) w)"
    by blast
  note nr = non_input_rest [OF r]
  have all_in: "rest = []" if "\<forall>f \<in> set requested. is_input g f"
  proof -
    from nr(1) that have "fst ` set rest = {}" by auto
    then show ?thesis by simp
  qed
  have mat: "buffers w ! i = materialize (get_varray (source_ptr (requested ! i)) msk) msk (outputs ! i)"
    if "i < length requested" "is_input g (requested ! i)" for i
    using that assms by (simp add: bw materialized_outputs_def)
  have fin: "(\<forall>i < length requested. is_input g (requested ! i) \<longrightarrow>
              buffers out ! i =
                materialize (get_varray (source_ptr (requested ! i)) msk) msk (outputs ! i)) \<and>
          (\<forall>p. built out = Some p \<longrightarrow>
              rest \<noteq> [] \<and>
              (\<exists>uv. build_procedure assertions g (map fst rest) empty_procedure [] = Some (Inr (p, uv))))"
    if out: "evaluate_fields assertions sem get_varray g requested msk outputs = Some out" for out
  proof (cases "rest = []")
    case True
    with out ev have "out = w" by simp
    with mat blw show ?thesis by simp
  next
    case False
    with out ev have "evaluate_non_input_fields assertions sem get_varray g (map fst rest) msk (map snd rest) w = Some out"
      by simp
    from evaluate_non_input_fields_frame [OF this]
    have f: "\<forall>j. j \<notin> set (map snd rest) \<longrightarrow> buffers out ! j = buffers w ! j"
      and b: "built out = built w \<or>
          (\<exists>p uv. built out = Some p \<and>
             build_procedure assertions g (map fst rest) empty_procedure [] = Some (Inr (p, uv)))"
      by blast+
    have 1: "buffers out ! i = materialize (get_varray (source_ptr (requested ! i)) msk) msk (outputs ! i)"
      if i: "i < length requested" "is_input g (requested ! i)" for i
    proof -
      from nr(2) i have "i \<notin> set (map snd rest)" by simp
      with f have "buffers out ! i = buffers w ! i" by blast
      with mat [OF i] show ?thesis by simp
    qed
    have 2: "rest \<noteq> [] \<and> (\<exists>uv. build_procedure assertions g (map fst rest) empty_procedure [] = Some (Inr (p, uv)))"
      if "built out = Some p" for p
      using b that blw False by auto
    from 1 2 show ?thesis by blast
  qed
  from r bw sw blw ev all_in fin show ?thesis by blast
qed

theorem evaluate_fields_bare_inputs_bypass_witness:
  "length [GField 0 0, GField 1 0] = length [[0, 0, 0], [0, 0, 0 :: int]] \<and>
   evaluate_fields True example_semantics example_data example_store [GField 0 0, GField 1 0] [0, 2]
       [[0, 0, 0], [0, 0, 0]] =
     Some \<lparr>status = None, buffers = [[5, 0, 5], [3, 0, 3]], varray_calls = [1, 0], built = None\<rparr>"
proof -
  have h: "length [GField 0 0, GField 1 0] = length [[0, 0, 0], [0, 0, 0 :: int]]" by simp
  have a: "\<forall>f \<in> set [GField 0 0, GField 1 0]. is_input example_store f"
    by (simp add: is_input_def example_store_def)
  from evaluate_fields_bare_inputs_bypass [OF h, where g = example_store and get_varray = example_data
      and msk = "[0, 2]" and sem = example_semantics and assertions = True]
  obtain rest w where
    1: "(\<forall>f \<in> set [GField 0 0, GField 1 0]. is_input example_store f) \<longrightarrow> rest = []"
    and 2: "evaluate_fields True example_semantics example_data example_store [GField 0 0, GField 1 0] [0, 2]
              [[0, 0, 0], [0, 0, 0]] =
        (if rest = [] then Some w
         else evaluate_non_input_fields True example_semantics example_data example_store
                (map fst rest) [0, 2] (map snd rest) w)"
    and 3: "built w = None"
    by blast
  from 1 a have "rest = []" by blast
  with 2 have "evaluate_fields True example_semantics example_data example_store [GField 0 0, GField 1 0] [0, 2]
              [[0, 0, 0], [0, 0, 0]] = Some w" by simp
  moreover have "evaluate_fields True example_semantics example_data example_store [GField 0 0, GField 1 0] [0, 2]
       [[0, 0, 0], [0, 0, 0]] =
     Some \<lparr>status = None, buffers = [[5, 0, 5], [3, 0, 3]], varray_calls = [1, 0], built = None\<rparr>"
    by code_simp
  ultimately show ?thesis using h by simp
qed

subsection \<open>How often input data is pulled\<close>

text \<open>
  C4, as stated, fails: with the requested fields \<open>A\<close> (a bare input) and \<open>sub(A, B)\<close>,
  the data of \<open>A\<close> is pulled twice in one call, once for the bare field and once by
  \<open>gather_inputs\<close>.
\<close>

theorem evaluate_fields_pulls_bare_input_again:
  "map_option (\<lambda>out. (varray_calls out, count_list (varray_calls out) 0))
     (evaluate_fields True example_semantics example_data example_store [GField 0 0, GField 2 0] [0]
        [[0], [0]]) = Some ([0, 1, 0], 2) \<and>
   map_option (\<lambda>out. (varray_calls out, count_list (varray_calls out) 0))
     (evaluate_fields False example_semantics example_data example_store [GField 0 0, GField 2 0] [0]
        [[0], [0]]) = Some ([0, 1, 0], 2)"
  by code_simp

text \<open>
  C4, amended. For a finite acyclic field graph, valid requested fields and as many
  buffers as fields, \<open>evaluate_fields\<close> terminates, and the data pulls of the call are:
  one for every requested bare input field (last field first), followed by the pulls of
  \<open>gather_inputs\<close>, which are exactly one for each distinct input reachable from the
  operation-rooted requested fields, whatever its fan-out.
\<close>

theorem evaluate_fields_varray_calls:
  assumes "acyclic_store n rank g" and "\<forall>f \<in> set requested. valid_field n g f"
    and "length requested = length outputs"
  shows "\<exists>out gathered.
      evaluate_fields assertions sem get_varray g requested msk outputs = Some out \<and>
      varray_calls out = map source_ptr (filter (is_input g) (rev requested)) @ gathered \<and>
      distinct gathered \<and>
      set gathered =
        {q \<in> reachable g (source_ptr ` {f \<in> set requested. \<not> is_input g f}). is_input_source (g q)}"
proof -
  from evaluate_fields_split [OF assms(3), where g = g and get_varray = get_varray and msk = msk
      and sem = sem and assertions = assertions] obtain rest w where
    r: "mset rest = mset (filter (\<lambda>(f, j). \<not> is_input g f) (zip requested [0 ..< length requested]))"
    and cw: "varray_calls w = map source_ptr (filter (is_input g) (rev requested))"
    and ev: "evaluate_fields assertions sem get_varray g requested msk outputs =
        (if rest = [] then Some w
         else evaluate_non_input_fields assertions sem get_varray g (map fst rest) msk (map snd rest) w)"
    by blast
  from non_input_rest(1) [OF r]
  have fs: "set (map fst rest) = {f \<in> set requested. \<not> is_input g f}" by simp
  show ?thesis
  proof (cases "rest = []")
    case True
    with fs have e: "{f \<in> set requested. \<not> is_input g f} = {}" by simp
    have "{q \<in> reachable g (source_ptr ` {f \<in> set requested. \<not> is_input g f}). is_input_source (g q)} = {}"
      unfolding e by (simp add: reachable_empty)
    with True ev cw show ?thesis by (intro exI [of _ w] exI [of _ "[]"]) simp
  next
    case False
    from fs assms(2) have v: "\<forall>f \<in> set (map fst rest). valid_field n g f" by blast
    from fs have ni: "\<forall>f \<in> set (map fst rest). \<not> is_input g f" by blast
    from evaluate_non_input_fields_total [OF assms(1) v ni, where sem = sem and get_varray = get_varray
        and msk = msk and outs = "map snd rest" and w = w and assertions = assertions]
    obtain out gathered where
      "evaluate_non_input_fields assertions sem get_varray g (map fst rest) msk (map snd rest) w = Some out"
      "varray_calls out = varray_calls w @ gathered" "distinct gathered"
      "set gathered = {q \<in> reachable g (source_ptr ` set (map fst rest)). is_input_source (g q)}"
      by blast
    with False ev cw fs show ?thesis by (intro exI [of _ out] exI [of _ gathered]) simp
  qed
qed

theorem evaluate_fields_varray_calls_witness:
  "acyclic_store 4 id example_store \<and>
   list_all (valid_field 4 example_store) [GField 0 0, GField 3 1, GField 2 0] \<and>
   length [GField 0 0, GField 3 1, GField 2 0] = length [[0], [0], [0 :: int]] \<and>
   (\<exists>out gathered.
      evaluate_fields True example_semantics example_data example_store
         [GField 0 0, GField 3 1, GField 2 0] [0] [[0], [0], [0]] = Some out \<and>
      varray_calls out =
        map source_ptr (filter (is_input example_store) (rev [GField 0 0, GField 3 1, GField 2 0]))
          @ gathered \<and>
      distinct gathered \<and>
      set gathered =
        {q \<in> reachable example_store
                (source_ptr ` {f \<in> set [GField 0 0, GField 3 1, GField 2 0]. \<not> is_input example_store f}).
           is_input_source (example_store q)})"
proof -
  have h1: "acyclic_store 4 id example_store" by code_simp
  have h2: "\<forall>f \<in> set [GField 0 0, GField 3 1, GField 2 0]. valid_field 4 example_store f"
    by (simp add: valid_field_def example_store_def)
  have h2': "list_all (valid_field 4 example_store) [GField 0 0, GField 3 1, GField 2 0]"
    using h2 by simp
  have h3: "length [GField 0 0, GField 3 1, GField 2 0] = length [[0], [0], [0 :: int]]" by simp
  from evaluate_fields_varray_calls [OF h1 h2 h3, where sem = example_semantics
      and get_varray = example_data and msk = "[0]" and assertions = True] h1 h2' h3
  show ?thesis by (intro conjI)
qed

end
